theory Spec2Isabelle
  imports Main "HOL-Library.AList"
begin

section \<open>Errors\<close>

text \<open>
  Every exception the modelled code can raise is a value.  \<open>AttributeError\<close> is what
  \<^verbatim>\<open>re.match(...).group(1)\<close> raises when the match is \<^verbatim>\<open>None\<close>;
  \<open>KeyError\<close> carries the missing key.
\<close>

datatype error =
    AttributeError
  | KeyError string
  | TypeError
  | ValueError
  | FileNotFoundError string
  | ZeroDivisionError
  | AssertionError
  | RecursionError
  | KeyboardInterrupt
  | ModuleMultipleDefined string "string list"
  | ModuleNotDefined string
  | CompilationError string int

section \<open>Text\<close>

text \<open>
  A Python \<^verbatim>\<open>str\<close> is modelled as a \<open>string\<close> whose characters are the code
  points below 256.  The three character classes are those of CPython on that range:
  \<^verbatim>\<open>str.lstrip()\<close> and the pattern \<^verbatim>\<open>\s\<close> share \<open>isspace\<close>, the pattern
  \<^verbatim>\<open>\w\<close> is \<open>isword\<close> (alphanumeric or underscore), \<^verbatim>\<open>str.lower()\<close> is
  \<open>lower\<close> characterwise.
\<close>

definition isspace :: "char \<Rightarrow> bool" where
  "isspace c =
     (let n = (of_char c :: nat)
      in (9 \<le> n \<and> n \<le> 13) \<or> (28 \<le> n \<and> n \<le> 32) \<or> n = 133 \<or> n = 160)"

definition isword :: "char \<Rightarrow> bool" where
  "isword c =
     (let n = (of_char c :: nat)
      in (48 \<le> n \<and> n \<le> 57) \<or> (65 \<le> n \<and> n \<le> 90) \<or> n = 95 \<or> (97 \<le> n \<and> n \<le> 122)
         \<or> n = 170 \<or> n = 178 \<or> n = 179 \<or> n = 181 \<or> n = 185 \<or> n = 186
         \<or> n = 188 \<or> n = 189 \<or> n = 190
         \<or> (192 \<le> n \<and> n \<le> 214) \<or> (216 \<le> n \<and> n \<le> 246) \<or> 248 \<le> n)"

definition lower_char :: "char \<Rightarrow> char" where
  "lower_char c =
     (let n = (of_char c :: nat)
      in if (65 \<le> n \<and> n \<le> 90) \<or> (192 \<le> n \<and> n \<le> 222 \<and> n \<noteq> 215)
         then char_of (n + 32) else c)"

definition lower :: "string \<Rightarrow> string" where
  "lower s = map lower_char s"

definition lstrip :: "string \<Rightarrow> string" where
  "lstrip s = dropWhile isspace s"

text \<open>\<^verbatim>\<open>line.split(' ', 1)[0]\<close>: the part of the line before its first space character.\<close>

definition split_first :: "string \<Rightarrow> string" where
  "split_first line = takeWhile (\<lambda>c. c \<noteq> CHR '' '') line"

text \<open>
  \<^verbatim>\<open>re.match(kw + r'\s+(\w+)\s*', line, re.IGNORECASE)\<close> for a lower-case keyword
  \<open>kw\<close>: \<open>None\<close> when there is no match, the text of group 1 otherwise.  The match is
  anchored at the start of the line; \<^verbatim>\<open>\s+\<close> and \<^verbatim>\<open>\w+\<close> are greedy and their
  classes are disjoint, so group 1 is the longest run of word characters after the
  whitespace that follows the keyword.
\<close>

definition re_match :: "string \<Rightarrow> string \<Rightarrow> string option" where
  "re_match kw line =
     (if lower (take (length kw) line) \<noteq> kw then None
      else case drop (length kw) line of
             [] \<Rightarrow> None
           | c # rest \<Rightarrow>
               if \<not> isspace c then None
               else (case takeWhile isword (dropWhile isspace rest) of
                       [] \<Rightarrow> None
                     | g \<Rightarrow> Some g))"

section \<open>The parser\<close>

text \<open>
  \<^verbatim>\<open>used\<close> is a Python set; it is modelled as a list without repetition, \<open>set_add\<close>
  being \<^verbatim>\<open>set.add\<close>.  The order of the list stands for the iteration order of the
  set, which Python leaves open.
\<close>

definition set_add :: "'a \<Rightarrow> 'a list \<Rightarrow> 'a list" where
  "set_add x xs = (if x \<in> set xs then xs else xs @ [x])"

type_synonym pstate = "nat \<times> string list \<times> string list"

text \<open>The body of the loop of \<^verbatim>\<open>parse_modules\<close>, on the state \<open>(nlines, defined, used)\<close>.\<close>

definition parse_line :: "string \<Rightarrow> pstate \<Rightarrow> error + pstate" where
  "parse_line raw st =
     (case st of (nlines, defined, used) \<Rightarrow>
        let nlines = nlines + 1;
            line = lstrip raw
        in if line = [] then Inr (nlines, defined, used)
           else if hd line = CHR ''!'' then Inr (nlines, defined, used)
           else
             let word = lower (split_first line)
             in if word = ''module'' then
                  (case re_match ''module'' line of
                     None \<Rightarrow> Inl AttributeError
                   | Some g \<Rightarrow>
                       let module = lower g
                       in if module \<noteq> ''procedure''
                          then Inr (nlines, defined @ [module], used)
                          else Inr (nlines, defined, used))
                else if word = ''use'' then
                  (case re_match ''use'' line of
                     None \<Rightarrow> Inl AttributeError
                   | Some g \<Rightarrow> Inr (nlines, defined, set_add (lower g) used))
                else Inr (nlines, defined, used))"

fun parse_loop :: "string list \<Rightarrow> pstate \<Rightarrow> error + pstate" where
  "parse_loop [] st = Inr st"
| "parse_loop (l # ls) st =
     (case parse_line l st of Inl e \<Rightarrow> Inl e | Inr st' \<Rightarrow> parse_loop ls st')"

text \<open>
  \<^verbatim>\<open>parse_modules(f)\<close>, where \<open>f\<close> is the list of lines the file iterator yields (each
  with its line terminator, the last one possibly without).
\<close>

definition parse_modules :: "string list \<Rightarrow> error + (nat \<times> string list \<times> string list)" where
  "parse_modules f =
     (case parse_loop f (0, [], []) of
        Inl e \<Rightarrow> Inl e
      | Inr (nlines, defined, used) \<Rightarrow>
          Inr (nlines, defined, filter (\<lambda>m. m \<notin> set defined) used))"

section \<open>Files and hashing\<close>

text \<open>
  The file system is a partial map from (normalised) paths to file contents.  SHA-1
  (\<^verbatim>\<open>hashlib\<close>) and \<^verbatim>\<open>repr\<close> of a tuple of strings belong to the Python library, not to the
  program: they are parameters of the model, as are the two depths at which the
  interpreter's recursion limit stops the nested \<^verbatim>\<open>getset\<close> calls of \<^verbatim>\<open>get_priority\<close>
  and of \<^verbatim>\<open>get_ancestors\<close>.
\<close>

type_synonym path = string
type_synonym filesystem = "path \<Rightarrow> string option"

record lib =
  sha1 :: "string \<Rightarrow> string"
  repr_args :: "string list \<Rightarrow> string"
  prio_depth :: nat
  anc_depth :: nat

text \<open>\<^verbatim>\<open>get_hash(path, tpl)\<close>; \<open>tpl = None\<close> hashes the file bytes alone.\<close>

definition get_hash :: "lib \<Rightarrow> filesystem \<Rightarrow> path \<Rightarrow> string list option \<Rightarrow> error + string" where
  "get_hash L fs p tpl =
     (case fs p of
        None \<Rightarrow> Inl (FileNotFoundError p)
      | Some bytes \<Rightarrow>
          Inr (sha1 L ((case tpl of None \<Rightarrow> [] | Some t \<Rightarrow> repr_args L t) @ bytes)))"

text \<open>
  Reading a file in text mode with universal newlines: \<^verbatim>\<open>\r\n\<close> and a lone \<^verbatim>\<open>\r\<close>
  become \<^verbatim>\<open>\n\<close>, and the iterator yields the lines with their terminator.
\<close>

fun translate_newlines :: "string \<Rightarrow> string" where
  "translate_newlines [] = []"
| "translate_newlines [c] = [if c = CHR 0x0D then CHR 0x0A else c]"
| "translate_newlines (c # d # cs) =
     (if c = CHR 0x0D
      then CHR 0x0A # (if d = CHR 0x0A then translate_newlines cs else translate_newlines (d # cs))
      else c # translate_newlines (d # cs))"

fun split_lines :: "string \<Rightarrow> string \<Rightarrow> string list" where
  "split_lines cur [] = (if cur = [] then [] else [cur])"
| "split_lines cur (c # cs) =
     (if c = CHR 0x0A then (cur @ [c]) # split_lines [] cs else split_lines (cur @ [c]) cs)"

definition readlines :: "string \<Rightarrow> string list" where
  "readlines content = split_lines [] (translate_newlines content)"

section \<open>Dictionaries\<close>

text \<open>
  A Python \<^verbatim>\<open>dict\<close> is an association list with distinct keys in insertion order:
  \<^verbatim>\<open>d[k] = v\<close> is \<open>AList.update\<close>, \<^verbatim>\<open>d.pop(k, None)\<close> is \<open>AList.delete\<close>, \<^verbatim>\<open>d.get(k)\<close> is
  \<open>map_of\<close>, and \<^verbatim>\<open>d[k]\<close> is \<open>lookup\<close>, which raises \<^verbatim>\<open>KeyError\<close>.  \<open>dd_get\<close> reads a
  \<^verbatim>\<open>defaultdict(list)\<close>.
\<close>

definition lookup :: "(string \<times> 'v) list \<Rightarrow> string \<Rightarrow> error + 'v" where
  "lookup d k = (case map_of d k of None \<Rightarrow> Inl (KeyError k) | Some v \<Rightarrow> Inr v)"

definition dd_get :: "('k \<times> 'v list) list \<Rightarrow> 'k \<Rightarrow> 'v list" where
  "dd_get d k = (case map_of d k of None \<Rightarrow> [] | Some v \<Rightarrow> v)"

text \<open>\<^verbatim>\<open>s.update(t)\<close> on sets kept as lists.\<close>

definition set_update :: "'a list \<Rightarrow> 'a list \<Rightarrow> 'a list" where
  "set_update s t = fold set_add t s"

section \<open>The cache document\<close>

text \<open>
  \<^verbatim>\<open>json.load\<close> is the library's: the cache file is either missing, or not a JSON
  text (\<^verbatim>\<open>json.load\<close> raises \<^verbatim>\<open>JSONDecodeError\<close>, a \<^verbatim>\<open>ValueError\<close>), or the value it
  parses to.  A number is kept as its literal.
\<close>

datatype json =
    JNull
  | JBool bool
  | JNum string
  | JStr string
  | JArr "json list"
  | JObj "(string \<times> json) list"

datatype cache_file = Missing | Malformed | Doc json

definition cachefile :: path where
  "cachefile = ''_fcompile_cache.json''"

text \<open>\<^verbatim>\<open>value[key]\<close> for a string key.\<close>

definition subscript :: "json \<Rightarrow> string \<Rightarrow> error + json" where
  "subscript j k = (case j of JObj kvs \<Rightarrow> lookup kvs k | _ \<Rightarrow> Inl TypeError)"

text \<open>The body of the \<^verbatim>\<open>try\<close> in \<^verbatim>\<open>build\<close>: \<^verbatim>\<open>json.load(f)['hashes']\<close>.\<close>

definition read_cache :: "cache_file \<Rightarrow> error + json" where
  "read_cache c =
     (case c of
        Missing \<Rightarrow> Inl (FileNotFoundError cachefile)
      | Malformed \<Rightarrow> Inl ValueError
      | Doc j \<Rightarrow> subscript j ''hashes'')"

text \<open>The \<^verbatim>\<open>try\<close> with its handler \<^verbatim>\<open>except (ValueError, FileNotFoundError)\<close>.\<close>

definition load_hashes :: "cache_file \<Rightarrow> error + json" where
  "load_hashes c =
     (case read_cache c of
        Inl ValueError \<Rightarrow> Inr (JObj [])
      | Inl (FileNotFoundError p) \<Rightarrow> Inr (JObj [])
      | Inl e \<Rightarrow> Inl e
      | Inr j \<Rightarrow> Inr j)"

section \<open>Tasks and the task tree\<close>

text \<open>The field \<^verbatim>\<open>includes\<close> of a task is \<open>incdirs\<close> here.\<close>

record task =
  source :: path
  args :: "string list"
  incdirs :: "path list"

type_synonym tasks = "(string \<times> task) list"

record TaskTree =
  src_mods :: "(string \<times> string list) list"
  mod_uses :: "(string \<times> string list) list"
  hashes :: "(string \<times> string) list"
  line_nums :: "(string \<times> nat) list"
  priority :: "(string \<times> int) list"
  ancestors :: "(string \<times> string list) list"

subsection \<open>\<^verbatim>\<open>get_priority\<close>\<close>

text \<open>
  \<^verbatim>\<open>getset\<close> with its memo table threaded through; the first argument is the number
  of nested calls still allowed, and running out of it is the \<^verbatim>\<open>RecursionError\<close> of
  the interpreter.  \<open>sum_p\<close> is \<^verbatim>\<open>sum(getset(n) for n in tree[node])\<close>.
\<close>

fun getset_p :: "nat \<Rightarrow> (string \<times> string list) list \<Rightarrow> string \<Rightarrow> (string \<times> int) list
                  \<Rightarrow> error + (int \<times> (string \<times> int) list)"
  and sum_p :: "nat \<Rightarrow> (string \<times> string list) list \<Rightarrow> string list \<Rightarrow> int \<Rightarrow> (string \<times> int) list
                  \<Rightarrow> error + (int \<times> (string \<times> int) list)" where
  "getset_p 0 tree node memo =
     (case map_of memo node of Some p \<Rightarrow> Inr (p, memo) | None \<Rightarrow> Inl RecursionError)"
| "getset_p (Suc k) tree node memo =
     (case map_of memo node of
        Some p \<Rightarrow> Inr (p, memo)
      | None \<Rightarrow>
          (case lookup tree node of
             Inl e \<Rightarrow> Inl e
           | Inr children \<Rightarrow>
               (case sum_p k tree children 0 memo of
                  Inl e \<Rightarrow> Inl e
                | Inr (s, memo') \<Rightarrow> Inr (1 + s, AList.update node (1 + s) memo'))))"
| "sum_p k tree [] acc memo = Inr (acc, memo)"
| "sum_p k tree (n # ns) acc memo =
     (case getset_p k tree n memo of
        Inl e \<Rightarrow> Inl e
      | Inr (p, memo') \<Rightarrow> sum_p k tree ns (acc + p) memo')"

fun priority_loop :: "nat \<Rightarrow> (string \<times> string list) list \<Rightarrow> string list \<Rightarrow> (string \<times> int) list
                  \<Rightarrow> error + (string \<times> int) list" where
  "priority_loop k tree [] memo = Inr memo"
| "priority_loop k tree (node # nodes) memo =
     (case getset_p k tree node memo of
        Inl e \<Rightarrow> Inl e
      | Inr (p, memo') \<Rightarrow> priority_loop k tree nodes memo')"

definition get_priority :: "nat \<Rightarrow> (string \<times> string list) list \<Rightarrow> error + (string \<times> int) list" where
  "get_priority k tree = priority_loop k tree (map fst tree) []"

subsection \<open>\<^verbatim>\<open>get_ancestors\<close>\<close>

text \<open>\<open>update_a\<close> is the loop \<^verbatim>\<open>for n in tree[node]: ancs.update(getset(n))\<close>.\<close>

fun getset_a :: "nat \<Rightarrow> (string \<times> string list) list \<Rightarrow> string \<Rightarrow> (string \<times> string list) list
                  \<Rightarrow> error + (string list \<times> (string \<times> string list) list)"
  and update_a :: "nat \<Rightarrow> (string \<times> string list) list \<Rightarrow> string list \<Rightarrow> string list
                  \<Rightarrow> (string \<times> string list) list
                  \<Rightarrow> error + (string list \<times> (string \<times> string list) list)" where
  "getset_a 0 tree node memo =
     (case map_of memo node of Some a \<Rightarrow> Inr (a, memo) | None \<Rightarrow> Inl RecursionError)"
| "getset_a (Suc k) tree node memo =
     (case map_of memo node of
        Some a \<Rightarrow> Inr (a, memo)
      | None \<Rightarrow>
          (case lookup tree node of
             Inl e \<Rightarrow> Inl e
           | Inr children \<Rightarrow>
               (case update_a k tree children children memo of
                  Inl e \<Rightarrow> Inl e
                | Inr (ancs, memo') \<Rightarrow> Inr (ancs, AList.update node ancs memo'))))"
| "update_a k tree [] ancs memo = Inr (ancs, memo)"
| "update_a k tree (n # ns) ancs memo =
     (case getset_a k tree n memo of
        Inl e \<Rightarrow> Inl e
      | Inr (a, memo') \<Rightarrow> update_a k tree ns (set_update ancs a) memo')"

fun ancestors_loop :: "nat \<Rightarrow> (string \<times> string list) list \<Rightarrow> string list
                  \<Rightarrow> (string \<times> string list) list \<Rightarrow> error + (string \<times> string list) list" where
  "ancestors_loop k tree [] memo = Inr memo"
| "ancestors_loop k tree (node # nodes) memo =
     (case getset_a k tree node memo of
        Inl e \<Rightarrow> Inl e
      | Inr (a, memo') \<Rightarrow> ancestors_loop k tree nodes memo')"

definition get_ancestors :: "nat \<Rightarrow> (string \<times> string list) list \<Rightarrow> error + (string \<times> string list) list" where
  "get_ancestors k tree = ancestors_loop k tree (map fst tree) []"

subsection \<open>\<^verbatim>\<open>get_tree\<close>\<close>

text \<open>
  The inner loop of the first pass: \<^verbatim>\<open>for module in defined\<close>, filling \<^verbatim>\<open>mod_defs\<close>.
\<close>

fun define_modules :: "string \<Rightarrow> string list \<Rightarrow> (string \<times> string) list
                  \<Rightarrow> error + (string \<times> string) list" where
  "define_modules src [] mdefs = Inr mdefs"
| "define_modules src (m # ms) mdefs =
     (case map_of mdefs m of
        Some first \<Rightarrow> Inl (ModuleMultipleDefined m [first, src])
      | None \<Rightarrow> define_modules src ms (AList.update m src mdefs))"

text \<open>
  The state of the first pass is \<open>(src_mods, mod_defs, src_deps, hashes, line_nums)\<close>.
  Decoding the file as text is not modelled: the text is the bytes.
\<close>

type_synonym scan =
  "(string \<times> string list) list \<times> (string \<times> string) list \<times> (string \<times> string list) list
   \<times> (string \<times> string) list \<times> (string \<times> nat) list"

definition scan_task :: "lib \<Rightarrow> filesystem \<Rightarrow> string \<Rightarrow> task \<Rightarrow> scan \<Rightarrow> error + scan" where
  "scan_task L fs src t sc =
     (case sc of (smods, mdefs, sdeps, hs, lnums) \<Rightarrow>
        (case fs (source t) of
           None \<Rightarrow> Inl (FileNotFoundError (source t))
         | Some content \<Rightarrow>
             (case parse_modules (readlines content) of
                Inl e \<Rightarrow> Inl e
              | Inr (nlines, defined, used) \<Rightarrow>
                  (case get_hash L fs (source t) (Some (args t)) of
                     Inl e \<Rightarrow> Inl e
                   | Inr h \<Rightarrow>
                       (case define_modules src defined mdefs of
                          Inl e \<Rightarrow> Inl e
                        | Inr mdefs' \<Rightarrow>
                            Inr (AList.update src defined smods, mdefs',
                                 AList.update src used sdeps, AList.update src h hs,
                                 AList.update src nlines lnums))))))"

fun scan_tasks :: "lib \<Rightarrow> filesystem \<Rightarrow> tasks \<Rightarrow> scan \<Rightarrow> error + scan" where
  "scan_tasks L fs [] sc = Inr sc"
| "scan_tasks L fs ((src, t) # ts) sc =
     (case scan_task L fs src t sc of Inl e \<Rightarrow> Inl e | Inr sc' \<Rightarrow> scan_tasks L fs ts sc')"

text \<open>\<^verbatim>\<open>for used in src_deps.values(): used.discard(m)\<close>.\<close>

definition discard_all :: "string \<Rightarrow> (string \<times> string list) list \<Rightarrow> (string \<times> string list) list" where
  "discard_all m sdeps = map (\<lambda>(src, used). (src, removeAll m used)) sdeps"

text \<open>
  \<^verbatim>\<open>incdir/(module + '.mod')\<close> on normalised paths, and \<^verbatim>\<open>Path.exists\<close> on a file
  system that holds files only.
\<close>

definition join_path :: "path \<Rightarrow> string \<Rightarrow> path" where
  "join_path dir name = dir @ ''/'' @ name"

definition exists_path :: "filesystem \<Rightarrow> path \<Rightarrow> bool" where
  "exists_path fs p = (fs p \<noteq> None)"

text \<open>
  The loop over \<^verbatim>\<open>product(task.includes, src_deps[src])\<close>, which iterates a copy of
  the set while \<^verbatim>\<open>src_deps[src].remove(module)\<close> changes the set itself;
  \<^verbatim>\<open>set.remove\<close> raises \<^verbatim>\<open>KeyError\<close> on an element that is not in the set.
\<close>

fun prune_includes :: "filesystem \<Rightarrow> (path \<times> string) list \<Rightarrow> string list \<Rightarrow> error + string list" where
  "prune_includes fs [] used = Inr used"
| "prune_includes fs ((incdir, m) # ps) used =
     (if exists_path fs (join_path incdir (m @ ''.mod''))
      then (if m \<in> set used then prune_includes fs ps (removeAll m used) else Inl (KeyError m))
      else prune_includes fs ps used)"

fun prune_tasks :: "filesystem \<Rightarrow> tasks \<Rightarrow> (string \<times> string list) list
                  \<Rightarrow> error + (string \<times> string list) list" where
  "prune_tasks fs [] sdeps = Inr sdeps"
| "prune_tasks fs ((src, t) # ts) sdeps =
     (if incdirs t \<noteq> [] then
        (case lookup sdeps src of
           Inl e \<Rightarrow> Inl e
         | Inr used \<Rightarrow>
             (case prune_includes fs (List.product (incdirs t) used) used of
                Inl e \<Rightarrow> Inl e
              | Inr used' \<Rightarrow> prune_tasks fs ts (AList.update src used' sdeps)))
      else prune_tasks fs ts sdeps)"

text \<open>
  \<^verbatim>\<open>for mod in set(...): if mod not in mod_defs: raise ModuleNotDefined(mod)\<close>; the
  list stands for the set in one of its iteration orders.
\<close>

fun check_defined :: "(string \<times> string) list \<Rightarrow> string list \<Rightarrow> error + unit" where
  "check_defined mdefs [] = Inr ()"
| "check_defined mdefs (m # ms) =
     (case map_of mdefs m of None \<Rightarrow> Inl (ModuleNotDefined m) | Some s \<Rightarrow> check_defined mdefs ms)"

text \<open>\<^verbatim>\<open>for module in modules: mod_uses[module].append(src)\<close> on the \<^verbatim>\<open>defaultdict\<close>.\<close>

fun add_uses :: "string \<Rightarrow> string list \<Rightarrow> (string \<times> string list) list \<Rightarrow> (string \<times> string list) list" where
  "add_uses src [] muses = muses"
| "add_uses src (m # ms) muses = add_uses src ms (AList.update m (dd_get muses m @ [src]) muses)"

fun build_mod_uses :: "(string \<times> string list) list \<Rightarrow> (string \<times> string list) list
                  \<Rightarrow> (string \<times> string list) list" where
  "build_mod_uses [] muses = muses"
| "build_mod_uses ((src, modules) # sdeps) muses = build_mod_uses sdeps (add_uses src modules muses)"

text \<open>
  The argument of \<^verbatim>\<open>get_priority\<close>.  Reading \<^verbatim>\<open>mod_uses[m]\<close> of a module nobody
  uses adds an empty entry to the \<^verbatim>\<open>defaultdict\<close>; every later read goes through
  \<open>dd_get\<close>, which gives the empty list with or without that entry, so the entry is not
  added here.
\<close>

definition priority_tree :: "(string \<times> string list) list \<Rightarrow> (string \<times> string list) list
                  \<Rightarrow> (string \<times> string list) list" where
  "priority_tree smods muses = map (\<lambda>(src, mods). (src, concat (map (dd_get muses) mods))) smods"

text \<open>The argument of \<^verbatim>\<open>get_ancestors\<close>: \<^verbatim>\<open>set(mod_defs[m] for m in mods)\<close> per source.\<close>

fun definers :: "(string \<times> string) list \<Rightarrow> string list \<Rightarrow> error + string list" where
  "definers mdefs [] = Inr []"
| "definers mdefs (m # ms) =
     (case lookup mdefs m of
        Inl e \<Rightarrow> Inl e
      | Inr s \<Rightarrow> (case definers mdefs ms of Inl e \<Rightarrow> Inl e | Inr ss \<Rightarrow> Inr (remdups (s # ss))))"

fun ancestors_tree :: "(string \<times> string) list \<Rightarrow> (string \<times> string list) list
                  \<Rightarrow> error + (string \<times> string list) list" where
  "ancestors_tree mdefs [] = Inr []"
| "ancestors_tree mdefs ((src, mods) # sdeps) =
     (case definers mdefs mods of
        Inl e \<Rightarrow> Inl e
      | Inr ds \<Rightarrow>
          (case ancestors_tree mdefs sdeps of Inl e \<Rightarrow> Inl e | Inr tr \<Rightarrow> Inr ((src, ds) # tr)))"

definition get_tree :: "lib \<Rightarrow> filesystem \<Rightarrow> tasks \<Rightarrow> error + TaskTree" where
  "get_tree L fs tasks =
     (case scan_tasks L fs tasks ([], [], [], [], []) of
        Inl e \<Rightarrow> Inl e
      | Inr (smods, mdefs, sdeps0, hs, lnums) \<Rightarrow>
          let sdeps1 = discard_all ''iso_c_binding'' sdeps0;
              sdeps2 = (if map_of mdefs ''mpi'' = None then discard_all ''mpi'' sdeps1 else sdeps1)
          in (case prune_tasks fs tasks sdeps2 of
                Inl e \<Rightarrow> Inl e
              | Inr sdeps \<Rightarrow>
                  (case check_defined mdefs (remdups (concat (map snd sdeps))) of
                     Inl e \<Rightarrow> Inl e
                   | Inr u \<Rightarrow>
                       let muses = build_mod_uses sdeps []
                       in (case get_priority (prio_depth L) (priority_tree smods muses) of
                             Inl e \<Rightarrow> Inl e
                           | Inr prio \<Rightarrow>
                               (case ancestors_tree mdefs sdeps of
                                  Inl e \<Rightarrow> Inl e
                                | Inr atree \<Rightarrow>
                                    (case get_ancestors (anc_depth L) atree of
                                       Inl e \<Rightarrow> Inl e
                                     | Inr ancs \<Rightarrow>
                                         Inr \<lparr>src_mods = smods, mod_uses = muses, hashes = hs,
                                              line_nums = lnums, priority = prio,
                                              ancestors = ancs\<rparr>))))))"

section \<open>The scheduler\<close>

text \<open>
  The local state of \<^verbatim>\<open>scheduler\<close>: \<open>live\<close> is the dictionary \<^verbatim>\<open>hashes\<close> it shares
  with \<^verbatim>\<open>build\<close> (its values are whatever the cache document held, or hashes as JSON
  strings), \<open>waiting\<close> and \<open>scheduled\<close> are the two sets, kept as lists without
  repetition, and \<open>task_queue\<close> lists the items put on the priority queue so far, in
  the order of the calls of \<^verbatim>\<open>put_nowait\<close>.  The progress line and the clocks are not
  modelled, except for the division \<^verbatim>\<open>n_lines/n_all_lines\<close>, which can raise.
\<close>

record sstate =
  live :: "(string \<times> json) list"
  waiting :: "string list"
  scheduled :: "string list"
  n_lines :: nat
  n_all_lines :: nat
  task_queue :: "(int \<times> string \<times> string list) list"

text \<open>
  A failure inside the scheduler carries the state at the moment of the raise: the
  dictionary \<^verbatim>\<open>hashes\<close> has been changed in place and \<^verbatim>\<open>build\<close> writes it out.
\<close>

type_synonym sresult = "(error \<times> sstate) + sstate"

text \<open>The body of \<^verbatim>\<open>for src in list(waiting)\<close>, with \<^verbatim>\<open>blocking\<close> computed before the loop.\<close>

definition dispatch_one :: "tasks \<Rightarrow> TaskTree \<Rightarrow> string list \<Rightarrow> string \<Rightarrow> sstate \<Rightarrow> sresult" where
  "dispatch_one tasks tree blocking src st =
     (case map_of (ancestors tree) src of
        None \<Rightarrow> Inl (KeyError src, st)
      | Some anc \<Rightarrow>
          if set blocking \<inter> set anc \<noteq> {} then Inr st
          else
            let st1 = st\<lparr>live := AList.delete src (live st)\<rparr>
            in (case map_of (priority tree) src of
                  None \<Rightarrow> Inl (KeyError src, st1)
                | Some p \<Rightarrow>
                    (case map_of tasks src of
                       None \<Rightarrow> Inl (KeyError src, st1)
                     | Some t \<Rightarrow>
                         Inr (st1\<lparr>task_queue := task_queue st1 @ [(- p, src, args t @ [source t])],
                                  scheduled := set_add src (scheduled st1),
                                  waiting := removeAll src (waiting st1)\<rparr>))))"

fun dispatch_loop :: "tasks \<Rightarrow> TaskTree \<Rightarrow> string list \<Rightarrow> string list \<Rightarrow> sstate \<Rightarrow> sresult" where
  "dispatch_loop tasks tree blocking [] st = Inr st"
| "dispatch_loop tasks tree blocking (src # srcs) st =
     (case dispatch_one tasks tree blocking src st of
        Inl r \<Rightarrow> Inl r
      | Inr st' \<Rightarrow> dispatch_loop tasks tree blocking srcs st')"

definition dispatch :: "tasks \<Rightarrow> TaskTree \<Rightarrow> sstate \<Rightarrow> sresult" where
  "dispatch tasks tree st =
     dispatch_loop tasks tree (set_update (waiting st) (scheduled st)) (waiting st) st"

text \<open>The loop \<^verbatim>\<open>for src in tree.mod_uses[mod]\<close> that follows a changed interface hash.\<close>

fun invalidate :: "TaskTree \<Rightarrow> string list \<Rightarrow> sstate \<Rightarrow> sresult" where
  "invalidate tree [] st = Inr st"
| "invalidate tree (d # ds) st =
     (if d \<in> set (scheduled st) then Inl (AssertionError, st)
      else
        let st1 = st\<lparr>live := AList.delete d (live st)\<rparr>
        in if d \<notin> set (waiting st1) then
             (case map_of (line_nums tree) d of
                None \<Rightarrow> Inl (KeyError d, st1)
              | Some n \<Rightarrow>
                  invalidate tree ds
                    (st1\<lparr>n_all_lines := n_all_lines st1 + n, waiting := waiting st1 @ [d]\<rparr>))
           else invalidate tree ds st1)"

text \<open>The body of \<^verbatim>\<open>for mod in tree.src_mods[src]\<close>.\<close>

definition propagate_mod :: "lib \<Rightarrow> filesystem \<Rightarrow> TaskTree \<Rightarrow> string \<Rightarrow> sstate \<Rightarrow> sresult" where
  "propagate_mod L fs tree m st =
     (let modfile = m @ ''.mod''
      in case get_hash L fs modfile None of
           Inl e \<Rightarrow> Inl (e, st)
         | Inr modhash \<Rightarrow>
             if Some (JStr modhash) \<noteq> map_of (live st) modfile
             then invalidate tree (dd_get (mod_uses tree) m)
                    (st\<lparr>live := AList.update modfile (JStr modhash) (live st)\<rparr>)
             else Inr st)"

fun propagate :: "lib \<Rightarrow> filesystem \<Rightarrow> TaskTree \<Rightarrow> string list \<Rightarrow> sstate \<Rightarrow> sresult" where
  "propagate L fs tree [] st = Inr st"
| "propagate L fs tree (m # ms) st =
     (case propagate_mod L fs tree m st of
        Inl r \<Rightarrow> Inl r
      | Inr st' \<Rightarrow> propagate L fs tree ms st')"

text \<open>
  What the scheduler does with one result \<^verbatim>\<open>(src, retcode, clock)\<close>; \<open>fs\<close> is the
  file system at that moment, with the \<^verbatim>\<open>.mod\<close> files the compiler has left.
\<close>

definition complete :: "lib \<Rightarrow> TaskTree \<Rightarrow> string \<Rightarrow> int \<Rightarrow> filesystem \<Rightarrow> sstate \<Rightarrow> sresult" where
  "complete L tree src retcode fs st =
     (if retcode \<noteq> 0 then Inl (CompilationError src retcode, st)
      else
        (case map_of (line_nums tree) src of
           None \<Rightarrow> Inl (KeyError src, st)
         | Some n \<Rightarrow>
             (case map_of (hashes tree) src of
                None \<Rightarrow> Inl (KeyError src, st)
              | Some h \<Rightarrow>
                  let st1 = st\<lparr>live := AList.update src (JStr h) (live st),
                               n_lines := n_lines st + n\<rparr>
                  in if src \<notin> set (scheduled st1) then Inl (KeyError src, st1)
                     else
                       let st2 = st1\<lparr>scheduled := removeAll src (scheduled st1)\<rparr>
                       in (case map_of (src_mods tree) src of
                             None \<Rightarrow> Inl (KeyError src, st2)
                           | Some mods \<Rightarrow> propagate L fs tree mods st2))))"

text \<open>
  What the scheduler can receive while it awaits the result queue: the result of a
  worker, or the user's interrupt.  A worker only runs what it took from the task
  queue, so a result for a source that is not in \<open>scheduled\<close> cannot arrive; \<open>await\<close>
  passes over such events.  Which of the scheduled sources finishes next, with what
  return code and leaving which files, is the environment's choice.
\<close>

datatype event = Result string int filesystem | Interrupt

fun admissible :: "sstate \<Rightarrow> event \<Rightarrow> bool" where
  "admissible st (Result src retcode fs) = (src \<in> set (scheduled st))"
| "admissible st Interrupt = True"

definition await :: "sstate \<Rightarrow> event list \<Rightarrow> event list" where
  "await st evs = dropWhile (\<lambda>ev. \<not> admissible st ev) evs"

datatype outcome = Done sstate | Raised error sstate | Pending sstate

text \<open>
  One turn of \<^verbatim>\<open>while True\<close> per recursive call.  \<open>Pending\<close>: the scheduler awaits a
  result that never comes.
\<close>

function scheduler_loop :: "lib \<Rightarrow> tasks \<Rightarrow> TaskTree \<Rightarrow> event list \<Rightarrow> sstate \<Rightarrow> outcome" where
  "scheduler_loop L tasks tree evs st =
     (let blocking = set_update (waiting st) (scheduled st)
      in case dispatch tasks tree st of
           Inl (e, st') \<Rightarrow> Raised e st'
         | Inr st1 \<Rightarrow>
             if n_all_lines st1 = 0 then Raised ZeroDivisionError st1
             else if blocking = [] then Done st1
             else
               (case await st1 evs of
                  [] \<Rightarrow> Pending st1
                | Interrupt # evs' \<Rightarrow> Raised KeyboardInterrupt st1
                | Result src retcode fs # evs' \<Rightarrow>
                    (case complete L tree src retcode fs st1 of
                       Inl (e, st') \<Rightarrow> Raised e st'
                     | Inr st2 \<Rightarrow> scheduler_loop L tasks tree evs' st2)))"
  by pat_completeness auto
termination
proof (relation "measure (\<lambda>(L, tasks, tree, evs, st). length evs)")
  show "wf (measure (\<lambda>(L, tasks, tree, evs, st). length evs))"
    by simp
next
  fix L :: lib and tasks :: tasks and tree :: TaskTree and evs :: "event list"
    and st st1 st2 :: sstate and blocking x a src retcode fs and evs' :: "event list"
  assume "await st1 evs = a # evs'"
  then have "length (a # evs') \<le> length evs"
    unfolding await_def by (metis length_dropWhile_le)
  then show "((L, tasks, tree, evs', st2), (L, tasks, tree, evs, st)) \<in>
               measure (\<lambda>(L, tasks, tree, evs, st). length evs)"
    by simp
qed

text \<open>
  \<^verbatim>\<open>sum(tree.line_nums[src] for src in changed_files)\<close>, and the scheduler from its
  first line.
\<close>

fun sum_lines :: "TaskTree \<Rightarrow> string list \<Rightarrow> error + nat" where
  "sum_lines tree [] = Inr 0"
| "sum_lines tree (src # srcs) =
     (case lookup (line_nums tree) src of
        Inl e \<Rightarrow> Inl e
      | Inr n \<Rightarrow> (case sum_lines tree srcs of Inl e \<Rightarrow> Inl e | Inr k \<Rightarrow> Inr (n + k)))"

definition scheduler :: "lib \<Rightarrow> tasks \<Rightarrow> TaskTree \<Rightarrow> (string \<times> json) list \<Rightarrow> string list
                  \<Rightarrow> event list \<Rightarrow> outcome" where
  "scheduler L tasks tree hs changed_files evs =
     (let st0 = \<lparr>live = hs, waiting = [], scheduled = [], n_lines = 0, n_all_lines = 0,
                 task_queue = []\<rparr>
      in case sum_lines tree changed_files of
           Inl e \<Rightarrow> Raised e st0
         | Inr n \<Rightarrow>
             scheduler_loop L tasks tree evs
               (st0\<lparr>n_all_lines := n, waiting := remdups changed_files\<rparr>))"

section \<open>\<^verbatim>\<open>build\<close>\<close>

text \<open>\<^verbatim>\<open>hashes.get(src)\<close> on whatever the cache document held under \<^verbatim>\<open>'hashes'\<close>.\<close>

definition py_get :: "json \<Rightarrow> string \<Rightarrow> error + json option" where
  "py_get j k = (case j of JObj kvs \<Rightarrow> Inr (map_of kvs k) | _ \<Rightarrow> Inl AttributeError)"

text \<open>
  \<^verbatim>\<open>[src for src in tasks if tree.hashes[src] != hashes.get(src)]\<close>.
\<close>

fun changed :: "tasks \<Rightarrow> TaskTree \<Rightarrow> json \<Rightarrow> error + string list" where
  "changed [] tree hs = Inr []"
| "changed ((src, t) # ts) tree hs =
     (case lookup (hashes tree) src of
        Inl e \<Rightarrow> Inl e
      | Inr h \<Rightarrow>
          (case py_get hs src of
             Inl e \<Rightarrow> Inl e
           | Inr v \<Rightarrow>
               (case changed ts tree hs of
                  Inl e \<Rightarrow> Inl e
                | Inr rest \<Rightarrow> Inr (if Some (JStr h) \<noteq> v then src # rest else rest))))"

text \<open>
  What one call of \<^verbatim>\<open>build\<close> does, as far as the outside can see: how it ends, the
  list of changed files it computed, the number of worker tasks it created, the items
  it queued for them, and the \<^verbatim>\<open>'hashes'\<close> object of the cache document it wrote, if
  it wrote one.  The table printed under \<^verbatim>\<open>DEBUG\<close> is not modelled.
\<close>

datatype ending = Returned | Failed error | Hung

record run =
  ending_of :: ending
  changed_of :: "string list"
  workers_of :: nat
  queued_of :: "(int \<times> string \<times> string list) list"
  written_of :: "(string \<times> json) list option"

fun is_interrupt :: "event \<Rightarrow> bool" where
  "is_interrupt Interrupt = True"
| "is_interrupt (Result src retcode fs) = False"

text \<open>
  \<open>fs\<close> is the file system when the sources are scanned, \<open>cache\<close> the cache file, and
  \<open>evs\<close> what the environment sends while the scheduler runs; with no worker
  (\<^verbatim>\<open>range(njobs)\<close> empty) no result is ever produced.  After the scheduler the
  \<^verbatim>\<open>finally\<close> clause writes the dictionary as it then is.  The scheduler is entered
  with a non-empty list of changed files only, so \<^verbatim>\<open>hashes\<close> is a dictionary there:
  \<^verbatim>\<open>hashes.get\<close> has succeeded on it.
\<close>

definition build :: "lib \<Rightarrow> filesystem \<Rightarrow> cache_file \<Rightarrow> tasks \<Rightarrow> bool \<Rightarrow> int \<Rightarrow> event list \<Rightarrow> run" where
  "build L fs cache tasks dry njobs evs =
     (let quiet = \<lparr>ending_of = Returned, changed_of = [], workers_of = 0, queued_of = [],
                   written_of = None\<rparr>
      in case get_tree L fs tasks of
           Inl e \<Rightarrow> quiet\<lparr>ending_of := Failed e\<rparr>
         | Inr tree \<Rightarrow>
             (case load_hashes cache of
                Inl e \<Rightarrow> quiet\<lparr>ending_of := Failed e\<rparr>
              | Inr hs \<Rightarrow>
                  (case changed tasks tree hs of
                     Inl e \<Rightarrow> quiet\<lparr>ending_of := Failed e\<rparr>
                   | Inr changed_files \<Rightarrow>
                       if changed_files = [] \<or> dry then quiet\<lparr>changed_of := changed_files\<rparr>
                       else
                         (case hs of
                            JObj kvs \<Rightarrow>
                              (case scheduler L tasks tree kvs changed_files
                                      (if 0 < njobs then evs else filter is_interrupt evs) of
                                 Done st \<Rightarrow>
                                   \<lparr>ending_of = Returned, changed_of = changed_files,
                                    workers_of = nat njobs, queued_of = task_queue st,
                                    written_of = Some (live st)\<rparr>
                               | Raised e st \<Rightarrow>
                                   \<lparr>ending_of = Failed e, changed_of = changed_files,
                                    workers_of = nat njobs, queued_of = task_queue st,
                                    written_of = Some (live st)\<rparr>
                               | Pending st \<Rightarrow>
                                   \<lparr>ending_of = Hung, changed_of = changed_files,
                                    workers_of = nat njobs, queued_of = task_queue st,
                                    written_of = None\<rparr>)
                          | _ \<Rightarrow> quiet\<lparr>ending_of := Failed AttributeError\<rparr>))))"

section \<open>Notions used in the statements\<close>

subsection \<open>Lines of a source file\<close>

text \<open>
  What one line of a source file is for the parser, in the words of its description:
  a line is \<open>skipped\<close> when it is empty after its leading whitespace or starts with
  \<^verbatim>\<open>!\<close> there; its \<open>keyword\<close> is the first space-delimited word, in lower case;
  \<open>ident_after kw\<close> is the identifier that follows the keyword, in lower case.
  \<open>spec_keyword\<close> is the first whitespace-delimited word instead.
\<close>

definition skipped :: "string \<Rightarrow> bool" where
  "skipped raw = (lstrip raw = [] \<or> hd (lstrip raw) = CHR ''!'')"

definition keyword :: "string \<Rightarrow> string" where
  "keyword raw = lower (split_first (lstrip raw))"


definition ident_after :: "string \<Rightarrow> string \<Rightarrow> string option" where
  "ident_after kw raw = map_option lower (re_match kw (lstrip raw))"

definition line_defines :: "string \<Rightarrow> string option" where
  "line_defines raw =
     (if \<not> skipped raw \<and> keyword raw = ''module''
      then (case ident_after ''module'' raw of
              None \<Rightarrow> None
            | Some m \<Rightarrow> if m = ''procedure'' then None else Some m)
      else None)"

definition line_uses :: "string \<Rightarrow> string option" where
  "line_uses raw =
     (if \<not> skipped raw \<and> keyword raw = ''use'' then ident_after ''use'' raw else None)"

text \<open>A keyword line with no identifier after the keyword.\<close>

definition line_fails :: "string \<Rightarrow> bool" where
  "line_fails raw =
     (\<not> skipped raw \<and>
      ((keyword raw = ''module'' \<and> ident_after ''module'' raw = None) \<or>
       (keyword raw = ''use'' \<and> ident_after ''use'' raw = None)))"

subsection \<open>Examples\<close>

text \<open>
  An instance of the library parameters, for running examples: the digest of a
  message is the message itself, the representation of a tuple lists its tokens with
  a comma after each, and nested calls go ten deep.
\<close>

definition plain_lib :: lib where
  "plain_lib =
     \<lparr>sha1 = (\<lambda>bytes. bytes), repr_args = (\<lambda>ts. concat (map (\<lambda>t. t @ '','') ts)),
      prio_depth = 10, anc_depth = 10\<rparr>"

text \<open>
  One source that uses \<^verbatim>\<open>m1\<close> and \<^verbatim>\<open>m2\<close>, compiled with two include directories
  that both hold \<^verbatim>\<open>m1.mod\<close>; nothing defines or provides \<^verbatim>\<open>m2\<close>.
\<close>

definition twice_fs :: filesystem where
  "twice_fs =
     map_of [(''a.f90'', ''use m1'' @ [CHR 0x0A] @ ''use m2'' @ [CHR 0x0A]),
             (''inc1/m1.mod'', ''interface''), (''inc2/m1.mod'', ''interface'')]"

definition twice_tasks :: tasks where
  "twice_tasks =
     [(''a'', \<lparr>source = ''a.f90'', args = [''gfortran'', ''-c''], incdirs = [''inc1'', ''inc2'']\<rparr>)]"

definition once_tasks :: tasks where
  "once_tasks =
     [(''a'', \<lparr>source = ''a.f90'', args = [''gfortran'', ''-c''], incdirs = [''inc1'']\<rparr>)]"

text \<open>
  Two sources: \<^verbatim>\<open>a.f90\<close> defines the module \<^verbatim>\<open>m\<close>, \<^verbatim>\<open>b.f90\<close> uses it; and the task
  tree the graph builder makes of them.
\<close>

definition ab_fs :: filesystem where
  "ab_fs =
     map_of [(''a.f90'', ''module m'' @ [CHR 0x0A] @ ''end module m'' @ [CHR 0x0A]),
             (''b.f90'', ''use m'' @ [CHR 0x0A])]"

definition ab_tasks :: tasks where
  "ab_tasks =
     [(''a'', \<lparr>source = ''a.f90'', args = [''gfortran'', ''-c''], incdirs = []\<rparr>),
      (''b'', \<lparr>source = ''b.f90'', args = [''gfortran'', ''-c''], incdirs = []\<rparr>)]"

definition ab_tree :: TaskTree where
  "ab_tree =
     \<lparr>src_mods = [(''a'', [''m'']), (''b'', [])],
      mod_uses = [(''m'', [''b''])],
      hashes = [(''a'', ''gfortran,-c,module m'' @ [CHR 0x0A] @ ''end module m'' @ [CHR 0x0A]),
                (''b'', ''gfortran,-c,use m'' @ [CHR 0x0A])],
      line_nums = [(''a'', 2), (''b'', 1)],
      priority = [(''b'', 1), (''a'', 2)],
      ancestors = [(''a'', []), (''b'', [''a''])]\<rparr>"


definition ab_start :: sstate where
  "ab_start =
     \<lparr>live = [(''a'', JStr ''h0''), (''b'', JStr ''h0'')], waiting = [''a'', ''b''],
      scheduled = [], n_lines = 0, n_all_lines = 3, task_queue = []\<rparr>"


text \<open>
  What the environment sends in three runs over the two sources: both compile and
  \<^verbatim>\<open>m.mod\<close> appears; \<^verbatim>\<open>a\<close> fails; and a cache left by a run that compiled \<^verbatim>\<open>a\<close> with
  the single argument \<^verbatim>\<open>gfortran\<close> and \<^verbatim>\<open>b\<close> as now.
\<close>

definition ab_events :: "event list" where
  "ab_events =
     [Result ''a'' 0 (map_of [(''m.mod'', ''i1'')]), Result ''b'' 0 (map_of [(''m.mod'', ''i1'')])]"

definition ab_failure :: "event list" where
  "ab_failure = [Result ''a'' 1 (map_of [])]"

definition ab_prior :: "(string \<times> json) list" where
  "ab_prior =
     [(''a'', JStr (''gfortran,module m'' @ [CHR 0x0A] @ ''end module m'' @ [CHR 0x0A])),
      (''b'', JStr (''gfortran,-c,use m'' @ [CHR 0x0A]))]"

text \<open>
  Two independent sources, one of which is named as the \<^verbatim>\<open>.mod\<close> file of the module
  the other defines; the first compiles, the second fails.
\<close>

definition clash_fs :: filesystem where
  "clash_fs = map_of [(''a.f90'', ''module b'' @ [CHR 0x0A]), (''c.f90'', ''x = 1'' @ [CHR 0x0A])]"

definition clash_tasks :: tasks where
  "clash_tasks =
     [(''a'', \<lparr>source = ''a.f90'', args = [''gfortran'', ''-c''], incdirs = []\<rparr>),
      (''b.mod'', \<lparr>source = ''c.f90'', args = [''gfortran'', ''-c''], incdirs = []\<rparr>)]"

definition clash_events :: "event list" where
  "clash_events = [Result ''a'' 0 (map_of [(''b.mod'', ''i1'')]), Result ''b.mod'' 1 (map_of [])]"

subsection \<open>The scheduler\<close>


definition ready :: "TaskTree \<Rightarrow> sstate \<Rightarrow> string \<Rightarrow> bool" where
  "ready tree st src =
     (case map_of (ancestors tree) src of
        None \<Rightarrow> False
      | Some anc \<Rightarrow> set anc \<inter> (set (waiting st) \<union> set (scheduled st)) = {})"

text \<open>
  The names of the \<^verbatim>\<open>.mod\<close> files the sources of a tree produce.  The live map keeps
  the hashes of sources and of those files under one and the same kind of key.
\<close>

definition artifacts :: "TaskTree \<Rightarrow> string list" where
  "artifacts tree = map (\<lambda>m. m @ ''.mod'') (concat (map snd (src_mods tree)))"

text \<open>Every scheduled source is a task and has no entry in the live map.\<close>

definition unhashed :: "tasks \<Rightarrow> sstate \<Rightarrow> bool" where
  "unhashed tasks st \<longleftrightarrow>
     set (scheduled st) \<subseteq> fst ` set tasks \<and> (\<forall>x\<in>set (scheduled st). map_of (live st) x = None)"

text \<open>
  The state is \<open>gated\<close> when no scheduled source has an ancestor that is waiting or
  scheduled; \<open>gated_but src\<close> asks the same with \<open>src\<close> counted among the scheduled, as
  it is while the result of \<open>src\<close> is handled.  A tree is \<open>ancestral\<close> when the sources
  that use a module have its defining source among their ancestors, and the ancestors
  of an ancestor are ancestors.
\<close>

definition gated :: "TaskTree \<Rightarrow> sstate \<Rightarrow> bool" where
  "gated tree st \<longleftrightarrow> (\<forall>s\<in>set (scheduled st). ready tree st s)"

definition gated_but :: "string \<Rightarrow> TaskTree \<Rightarrow> sstate \<Rightarrow> bool" where
  "gated_but src tree st \<longleftrightarrow>
     (\<forall>s\<in>set (scheduled st). \<exists>a. map_of (ancestors tree) s = Some a
         \<and> set a \<inter> (insert src (set (waiting st) \<union> set (scheduled st))) = {})"

definition ancestral :: "TaskTree \<Rightarrow> bool" where
  "ancestral tree \<longleftrightarrow>
     (\<forall>src mods m d. map_of (src_mods tree) src = Some mods \<and> m \<in> set mods
          \<and> d \<in> set (dd_get (mod_uses tree) m)
        \<longrightarrow> (\<exists>a. map_of (ancestors tree) d = Some a \<and> src \<in> set a))
     \<and> (\<forall>s a x b. map_of (ancestors tree) s = Some a \<and> x \<in> set a
          \<and> map_of (ancestors tree) x = Some b
        \<longrightarrow> set b \<subseteq> set a)"

subsection \<open>Graphs\<close>

text \<open>
  The edges of a graph given as a dictionary from nodes to lists of children, and the
  priority of a node computed without a memo table: 1 plus the sum of the priorities
  of its children, within a given depth.
\<close>

definition edges :: "(string \<times> string list) list \<Rightarrow> (string \<times> string) set" where
  "edges tree = {(n, c). \<exists>children. map_of tree n = Some children \<and> c \<in> set children}"

fun prio :: "nat \<Rightarrow> (string \<times> string list) list \<Rightarrow> string \<Rightarrow> int option" where
  "prio 0 tree n = None"
| "prio (Suc k) tree n =
     (case map_of tree n of
        None \<Rightarrow> None
      | Some children \<Rightarrow> map_option (\<lambda>ps. 1 + sum_list ps) (those (map (prio k tree) children)))"

text \<open>
  What holds of the memo tables of \<^verbatim>\<open>get_priority\<close> and \<^verbatim>\<open>get_ancestors\<close> at every
  moment: an entry is the priority of its node, and the set of the nodes reachable
  from its node.
\<close>

definition prio_memo :: "(string \<times> string list) list \<Rightarrow> (string \<times> int) list \<Rightarrow> bool" where
  "prio_memo tree memo \<longleftrightarrow> (\<forall>n p. map_of memo n = Some p \<longrightarrow> (\<exists>j. prio j tree n = Some p))"

definition anc_memo :: "(string \<times> string list) list \<Rightarrow> (string \<times> string list) list \<Rightarrow> bool" where
  "anc_memo tree memo \<longleftrightarrow> (\<forall>n a. map_of memo n = Some a \<longrightarrow> set a = (edges tree)\<^sup>+ `` {n})"

text \<open>
  What holds of the state of the first pass of \<^verbatim>\<open>get_tree\<close> once it has read the tasks
  \<open>seen\<close>: the dictionaries have the keys of those tasks, the hash of each is that of
  its arguments and its file, and \<^verbatim>\<open>mod_defs\<close> maps a module to a source exactly when
  that source defines it.
\<close>

definition scanned :: "lib \<Rightarrow> filesystem \<Rightarrow> tasks \<Rightarrow> scan \<Rightarrow> bool" where
  "scanned L fs seen sc \<longleftrightarrow>
     (case sc of (smods, mdefs, sdeps, hs, lnums) \<Rightarrow>
        map fst smods = map fst seen \<and> map fst sdeps = map fst seen
        \<and> map fst hs = map fst seen \<and> map fst lnums = map fst seen
        \<and> (\<forall>src t. (src, t) \<in> set seen \<longrightarrow>
              (\<exists>bytes. fs (source t) = Some bytes
                 \<and> map_of hs src = Some (sha1 L (repr_args L (args t) @ bytes))))
        \<and> (\<forall>m d. map_of mdefs m = Some d \<longleftrightarrow>
              (\<exists>defined. map_of smods d = Some defined \<and> m \<in> set defined)))"

text \<open>
  The edge from a source to each source that uses a module it defines, read off the
  task tree.
\<close>

definition uses_edge :: "TaskTree \<Rightarrow> (string \<times> string) set" where
  "uses_edge tree =
     {(d, s). \<exists>mods m. map_of (src_mods tree) d = Some mods \<and> m \<in> set mods
                \<and> s \<in> set (dd_get (mod_uses tree) m)}"

section \<open>The parser: results\<close>

lemma parse_line_fails:
  "line_fails l \<Longrightarrow> parse_line l (n, d, u) = Inl AttributeError"
  by (auto simp: line_fails_def parse_line_def skipped_def keyword_def ident_after_def Let_def)

lemma parse_line_ok:
  "\<not> line_fails l \<Longrightarrow>
   parse_line l (n, d, u) =
     Inr (Suc n, d @ (case line_defines l of None \<Rightarrow> [] | Some m \<Rightarrow> [m]),
          (case line_uses l of None \<Rightarrow> u | Some m \<Rightarrow> set_add m u))"
  by (auto simp: line_fails_def parse_line_def skipped_def keyword_def ident_after_def Let_def
        line_defines_def line_uses_def split: option.splits)

lemma parse_loop_char:
  "parse_loop f (n, d, u) =
     (if \<exists>l\<in>set f. line_fails l then Inl AttributeError
      else Inr (n + length f, d @ List.map_filter line_defines f,
                fold set_add (List.map_filter line_uses f) u))"
proof (induction f arbitrary: n d u)
  case Nil
  show ?case by simp
next
  case (Cons l f)
  show ?case
  proof (cases "line_fails l")
    case True
    then show ?thesis by (simp add: parse_line_fails)
  next
    case False
    then show ?thesis
      by (simp add: parse_line_ok Cons.IH split: option.splits)
  qed
qed

lemma set_fold_set_add: "set (fold set_add xs u) = set xs \<union> set u"
  by (induction xs arbitrary: u) (auto simp: set_add_def)





text \<open>
  Claim C10, as amended.  The parser raises, with \<^verbatim>\<open>AttributeError\<close>, exactly on the
  files that hold a line whose first space-delimited word is \<^verbatim>\<open>module\<close> or \<^verbatim>\<open>use\<close> in
  any case and which has no identifier after the whitespace that follows the keyword;
  on every other file it returns a result.
\<close>

theorem parse_modules_raises_iff:
  "(parse_modules f = Inl AttributeError \<longleftrightarrow> (\<exists>l\<in>set f. line_fails l)) \<and>
   ((\<exists>r. parse_modules f = Inr r) \<longleftrightarrow> (\<forall>l\<in>set f. \<not> line_fails l))"
  by (auto simp: parse_modules_def parse_loop_char)

theorem parse_modules_raises_iff_witness:
  "parse_modules [''use foo'', ''module''] = Inl AttributeError
   \<and> parse_modules [''x = 1'', ''use ,''] = Inl AttributeError
   \<and> (\<exists>r. parse_modules [''module'' @ [CHR 0x0A], ''use a''] = Inr r)"
proof -
  have 1: "\<exists>l\<in>set [''use foo'', ''module'']. line_fails l"
    by code_simp
  have 2: "\<exists>l\<in>set [''x = 1'', ''use ,'']. line_fails l"
    by code_simp
  have 3: "\<forall>l\<in>set [''module'' @ [CHR 0x0A], ''use a'']. \<not> line_fails l"
    by code_simp
  note a = parse_modules_raises_iff [THEN conjunct1, THEN iffD2, OF 1]
  note b = parse_modules_raises_iff [THEN conjunct1, THEN iffD2, OF 2]
  note c = parse_modules_raises_iff [THEN conjunct2, THEN iffD2, OF 3]
  from a b c show ?thesis
    by (intro conjI)
qed

text \<open>
  The line \<^verbatim>\<open>use,\<close>, which the claim gives as an example of a failing line, is passed
  over: its first space-delimited word is \<^verbatim>\<open>use,\<close>, not \<^verbatim>\<open>use\<close>.
\<close>

theorem parse_modules_use_comma_counterexample:
  "parse_modules [''use,''] = Inr (1, [], [])"
  by code_simp

section \<open>Loading the cache\<close>

text \<open>
  Claim C7, at the input where the code departs from it.  A missing cache file and a
  file that is not JSON load as the empty map.  A JSON document of another shape does
  not: without the key \<^verbatim>\<open>hashes\<close> the load raises \<^verbatim>\<open>KeyError\<close>, on a document that is
  not an object \<^verbatim>\<open>TypeError\<close>, neither of which the handler catches, and \<^verbatim>\<open>build\<close>
  ends with that error; an object whose \<^verbatim>\<open>hashes\<close> is not an object loads, and
  \<^verbatim>\<open>build\<close> fails when it looks the first source up in it.
\<close>

theorem load_hashes_other_shape:
  "load_hashes Missing = Inr (JObj [])
   \<and> load_hashes Malformed = Inr (JObj [])
   \<and> load_hashes (Doc (JObj [])) = Inl (KeyError ''hashes'')
   \<and> load_hashes (Doc (JArr [])) = Inl TypeError
   \<and> ending_of (build plain_lib ab_fs (Doc (JObj [])) ab_tasks False 1 []) = Failed (KeyError ''hashes'')
   \<and> ending_of (build plain_lib ab_fs (Doc (JObj [(''hashes'', JNull)])) ab_tasks False 1 [])
       = Failed AttributeError"
  by code_simp

section \<open>The graph builder: a module found in two include directories\<close>

text \<open>
  Claim C5, at the input where the code departs from it.  The source uses \<^verbatim>\<open>m1\<close>,
  which both include directories of its task provide, and \<^verbatim>\<open>m2\<close>, which nothing
  defines or provides.  With one include directory the graph builder raises
  \<^verbatim>\<open>ModuleNotDefined\<close> for \<^verbatim>\<open>m2\<close>; with the two it raises \<^verbatim>\<open>KeyError\<close> for \<^verbatim>\<open>m1\<close>, which
  it removes from the set of used modules a second time.
\<close>

theorem get_tree_included_twice:
  "get_tree plain_lib twice_fs once_tasks = Inl (ModuleNotDefined ''m2'')
   \<and> get_tree plain_lib twice_fs twice_tasks = Inl (KeyError ''m1'')
   \<and> ending_of (build plain_lib twice_fs Missing twice_tasks False 1 []) = Failed (KeyError ''m1'')"
  by code_simp

section \<open>The scheduler: interface propagation\<close>

lemma set_set_update: "set (set_update s t) = set s \<union> set t"
  by (simp add: set_update_def set_fold_set_add Un_commute)




section \<open>The scheduler: dispatch\<close>

lemma dispatch_one_union:
  assumes "src \<in> set (waiting st) \<union> set (scheduled st)"
    and "dispatch_one tasks tree B src st = Inr st'"
  shows "set (waiting st') \<union> set (scheduled st') = set (waiting st) \<union> set (scheduled st)"
  using assms
  by (auto simp: dispatch_one_def set_add_def Let_def split: option.splits if_splits)




section \<open>The scheduler: invariants of the loop\<close>

declare scheduler_loop.simps [simp del]

lemma await_Cons:
  assumes "await st evs = ev # evs'"
  shows "admissible st ev" and "length evs' < length evs"
proof -
  from assms have "evs = takeWhile (\<lambda>ev. \<not> admissible st ev) evs @ ev # evs'"
    and "\<not> \<not> admissible st ev"
    unfolding await_def by (simp_all add: dropWhile_eq_Cons_conv)
  then show "admissible st ev" by simp
  from \<open>evs = takeWhile (\<lambda>ev. \<not> admissible st ev) evs @ ev # evs'\<close>
  have "length evs = length (takeWhile (\<lambda>ev. \<not> admissible st ev) evs) + Suc (length evs')"
    by (metis length_append length_Cons)
  then show "length evs' < length evs" by simp
qed

lemma scheduler_loop_Raised:
  assumes inv: "Inv st"
    and disp: "\<And>st st1. Inv st \<Longrightarrow> dispatch tasks tree st = Inr st1 \<Longrightarrow> Inv st1"
    and comp: "\<And>st src rc fs st2. Inv st \<Longrightarrow> src \<in> set (scheduled st) \<Longrightarrow>
                 complete L tree src rc fs st = Inr st2 \<Longrightarrow> Inv st2"
    and run: "scheduler_loop L tasks tree evs st = Raised e st'"
  shows "(\<exists>st0. Inv st0 \<and> dispatch tasks tree st0 = Inl (e, st'))
       \<or> e = ZeroDivisionError \<or> e = KeyboardInterrupt
       \<or> (\<exists>st1 src rc fs. Inv st1 \<and> src \<in> set (scheduled st1)
             \<and> complete L tree src rc fs st1 = Inl (e, st'))"
  using inv run
proof (induction evs arbitrary: st rule: length_induct)
  case (1 evs)
  note run = \<open>scheduler_loop L tasks tree evs st = Raised e st'\<close>
  show ?case
  proof (cases "dispatch tasks tree st")
    case (Inl r)
    then obtain e0 st0 where r: "r = (e0, st0)" by (cases r)
    with Inl run have "e0 = e" "st0 = st'"
      by (simp_all add: scheduler_loop.simps [of L tasks tree evs st] Let_def)
    with Inl r "1.prems"(1) show ?thesis by blast
  next
    case (Inr st1)
    with "1.prems"(1) have inv1: "Inv st1" by (rule disp)
    show ?thesis
    proof (cases "n_all_lines st1 = 0")
      case True
      with Inr run show ?thesis
        by (simp add: scheduler_loop.simps [of L tasks tree evs st] Let_def)
    next
      case nz: False
      show ?thesis
      proof (cases "set_update (waiting st) (scheduled st) = []")
        case True
        with Inr nz run show ?thesis
          by (simp add: scheduler_loop.simps [of L tasks tree evs st] Let_def)
      next
        case nb: False
        show ?thesis
        proof (cases "await st1 evs")
          case Nil
          with Inr nz nb run show ?thesis
            by (simp add: scheduler_loop.simps [of L tasks tree evs st] Let_def)
        next
          case (Cons ev evs')
          note adm = await_Cons [OF Cons]
          show ?thesis
          proof (cases ev)
            case Interrupt
            with Cons Inr nz nb run show ?thesis
              by (simp add: scheduler_loop.simps [of L tasks tree evs st] Let_def)
          next
            case (Result src rc fs)
            with adm(1) have sched: "src \<in> set (scheduled st1)" by simp
            show ?thesis
            proof (cases "complete L tree src rc fs st1")
              case (Inl r)
              then obtain e0 st0 where r: "r = (e0, st0)" by (cases r)
              with Inl Result Cons Inr nz nb run have "e0 = e" "st0 = st'"
                by (simp_all add: scheduler_loop.simps [of L tasks tree evs st] Let_def)
              with Inl r inv1 sched show ?thesis by blast
            next
              case st2: (Inr st2)
              from inv1 sched st2 have inv2: "Inv st2" by (rule comp)
              from st2 Result Cons Inr nz nb run
              have "scheduler_loop L tasks tree evs' st2 = Raised e st'"
                by (simp add: scheduler_loop.simps [of L tasks tree evs st] Let_def)
              with "1.IH" adm(2) inv2 show ?thesis by blast
            qed
          qed
        qed
      qed
    qed
  qed
qed

section \<open>The graph builder: the two traversals\<close>

subsection \<open>Priorities\<close>

lemma those_eq_Some_iff:
  "those xs = Some ys \<longleftrightarrow> xs = map Some ys"
proof (induction xs arbitrary: ys)
  case Nil
  show ?case by auto
next
  case (Cons x xs)
  show ?case
  proof (cases x)
    case None
    then show ?thesis by auto
  next
    case (Some y)
    with Cons.IH show ?thesis
      by (cases ys) (auto split: option.splits)
  qed
qed

declare prio.simps [simp del]

lemma map_eq_map_Some:
  "map f xs = map Some ys \<Longrightarrow> x \<in> set xs \<Longrightarrow> \<exists>y. f x = Some y"
  by (induction xs arbitrary: ys) auto

lemma prio_Suc:
  "prio k tree n = Some p \<Longrightarrow> prio (Suc k) tree n = Some p"
proof (induction k arbitrary: n p)
  case 0
  then show ?case by (simp add: prio.simps(1))
next
  case (Suc k)
  from Suc.prems obtain children ps where
    ch: "map_of tree n = Some children" and
    ps: "those (map (prio k tree) children) = Some ps" and
    p: "p = 1 + sum_list ps"
    by (auto simp: prio.simps(2) split: option.splits)
  from ps have mp: "map (prio k tree) children = map Some ps"
    by (simp add: those_eq_Some_iff)
  have "prio (Suc k) tree c = prio k tree c" if "c \<in> set children" for c
  proof -
    from map_eq_map_Some [OF mp that] obtain pc where "prio k tree c = Some pc" ..
    with Suc.IH [of c pc] show ?thesis by simp
  qed
  then have eq: "map (prio (Suc k) tree) children = map (prio k tree) children"
    by (simp cong: map_cong)
  have "prio (Suc (Suc k)) tree n
          = map_option (\<lambda>ps. 1 + sum_list ps) (those (map (prio (Suc k) tree) children))"
    by (simp add: prio.simps(2) ch)
  also have "\<dots> = Some p"
    unfolding eq ps p by simp
  finally show ?case .
qed

lemma prio_mono:
  assumes "prio k tree n = Some p" and "k \<le> k'"
  shows "prio k' tree n = Some p"
  using assms(2,1)
proof (induction rule: dec_induct)
  case base
  then show ?case .
next
  case (step m)
  then have "prio m tree n = Some p" by blast
  then show ?case by (rule prio_Suc)
qed

lemma prio_unique:
  assumes "prio j tree n = Some p" and "prio k tree n = Some q"
  shows "p = q"
proof -
  from assms(1) have "prio (max j k) tree n = Some p" by (rule prio_mono) simp
  moreover from assms(2) have "prio (max j k) tree n = Some q" by (rule prio_mono) simp
  ultimately show ?thesis by simp
qed

lemma getset_p_sum_p:
  shows "prio_memo tree memo \<Longrightarrow> getset_p k tree node memo = Inr (p, memo') \<Longrightarrow>
      (\<exists>j. prio j tree node = Some p) \<and> prio_memo tree memo' \<and> map_of memo' node = Some p
      \<and> dom (map_of memo) \<subseteq> dom (map_of memo')"
    and "prio_memo tree memo \<Longrightarrow> sum_p k tree ns acc memo = Inr (s, memo') \<Longrightarrow>
      (\<exists>j ps. map (prio j tree) ns = map Some ps \<and> s = acc + sum_list ps) \<and> prio_memo tree memo'
      \<and> dom (map_of memo) \<subseteq> dom (map_of memo')"
proof (induction k tree node memo and k tree ns acc memo arbitrary: p memo' and s memo'
    rule: getset_p_sum_p.induct)
  case (1 tree node memo)
  then show ?case
    by (auto simp: prio_memo_def split: option.splits)
next
  case (2 k tree node memo)
  note inv = "2.prems"(1) and run = "2.prems"(2)
  show ?case
  proof -
    show ?thesis
    proof (cases "map_of memo node")
      case (Some q)
      with run have "p = q" "memo' = memo" by simp_all
      with Some inv show ?thesis by (auto simp: prio_memo_def)
    next
      case None
      with run obtain children s memo1 where
        ch: "lookup tree node = Inr children" and
        sm: "sum_p k tree children 0 memo = Inr (s, memo1)" and
        p: "p = 1 + s" and memo': "memo' = AList.update node (1 + s) memo1"
        by (auto split: sum.splits)
      from "2.IH" [OF None ch inv sm] obtain j ps where
        ps: "map (prio j tree) children = map Some ps" and s: "s = sum_list ps" and
        inv1: "prio_memo tree memo1" and sub: "dom (map_of memo) \<subseteq> dom (map_of memo1)"
        by auto
      from ch have mch: "map_of tree node = Some children"
        by (auto simp: lookup_def split: option.splits)
      from ps have "those (map (prio j tree) children) = Some ps"
        by (simp add: those_eq_Some_iff)
      with mch p s have pr: "prio (Suc j) tree node = Some p"
        by (simp add: prio.simps(2))
      have "prio_memo tree memo'"
        unfolding prio_memo_def
      proof (intro allI impI)
        fix n q assume "map_of memo' n = Some q"
        then show "\<exists>j. prio j tree n = Some q"
          using inv1 pr p by (auto simp: memo' AList.update_conv' prio_memo_def split: if_splits)
      qed
      moreover have "map_of memo' node = Some p"
        by (simp add: memo' p AList.update_conv')
      moreover have "dom (map_of memo) \<subseteq> dom (map_of memo')"
        using sub by (auto simp: memo' AList.update_conv')
      ultimately show ?thesis using pr by blast
    qed
  qed
next
  case (3 k tree acc memo)
  then show ?case by auto
next
  case (4 k tree n ns acc memo)
  note inv = "4.prems"(1) and run = "4.prems"(2)
  show ?case
  proof -
    from run obtain q memo1 where
      g: "getset_p k tree n memo = Inr (q, memo1)" and
      r: "sum_p k tree ns (acc + q) memo1 = Inr (s, memo')"
      by (auto split: sum.splits)
    from "4.IH"(1) [OF inv g] obtain j1 where
      q: "prio j1 tree n = Some q" and inv1: "prio_memo tree memo1" and
      sub1: "dom (map_of memo) \<subseteq> dom (map_of memo1)"
      by blast
    from "4.IH"(2) [OF g refl inv1 r] obtain j2 ps where
      ps: "map (prio j2 tree) ns = map Some ps" and s: "s = acc + q + sum_list ps" and
      inv2: "prio_memo tree memo'" and sub2: "dom (map_of memo1) \<subseteq> dom (map_of memo')"
      by blast
    let ?j = "max j1 j2"
    from q have q': "prio ?j tree n = Some q" by (rule prio_mono) simp
    have "\<forall>c\<in>set ns. prio ?j tree c = prio j2 tree c"
    proof
      fix c assume "c \<in> set ns"
      from map_eq_map_Some [OF ps this] obtain pc where pc: "prio j2 tree c = Some pc" ..
      have "j2 \<le> ?j" by simp
      with pc have "prio ?j tree c = Some pc" by (rule prio_mono)
      with pc show "prio ?j tree c = prio j2 tree c"
        by simp
    qed
    then have "map (prio ?j tree) ns = map (prio j2 tree) ns"
      by (simp cong: map_cong)
    with ps q' have "map (prio ?j tree) (n # ns) = map Some (q # ps)"
      by simp
    moreover have "s = acc + sum_list (q # ps)"
      using s by simp
    ultimately show ?thesis
      using inv2 sub1 sub2 by blast
  qed
qed

lemma priority_loop_memo:
  assumes "prio_memo tree memo" and "priority_loop k tree nodes memo = Inr memo'"
  shows "prio_memo tree memo' \<and> set nodes \<union> dom (map_of memo) \<subseteq> dom (map_of memo')"
  using assms
proof (induction nodes arbitrary: memo)
  case Nil
  then show ?case by simp
next
  case (Cons n nodes)
  from Cons.prems(2) obtain p memo1 where
    g: "getset_p k tree n memo = Inr (p, memo1)" and
    r: "priority_loop k tree nodes memo1 = Inr memo'"
    by (auto split: sum.splits)
  from getset_p_sum_p(1) [OF Cons.prems(1) g] have
    inv1: "prio_memo tree memo1" and n: "map_of memo1 n = Some p" and
    sub: "dom (map_of memo) \<subseteq> dom (map_of memo1)"
    by simp_all
  from Cons.IH [OF inv1 r] have inv2: "prio_memo tree memo'" and
    sub2: "set nodes \<union> dom (map_of memo1) \<subseteq> dom (map_of memo')"
    by simp_all
  from n have "n \<in> dom (map_of memo1)" by blast
  with sub sub2 have "set (n # nodes) \<union> dom (map_of memo) \<subseteq> dom (map_of memo')"
    by (simp only: set_simps) blast
  with inv2 show ?case ..
qed

lemma get_priority_memo:
  assumes "get_priority k tree = Inr P"
  shows "prio_memo tree P" and "fst ` set tree \<subseteq> dom (map_of P)"
proof -
  have "prio_memo tree []" by (simp add: prio_memo_def)
  from priority_loop_memo [OF this assms [unfolded get_priority_def]]
  show "prio_memo tree P" and "fst ` set tree \<subseteq> dom (map_of P)"
    by simp_all
qed

lemma sum_list_ge_member:
  fixes ps :: "int list"
  assumes "\<forall>q\<in>set ps. 0 \<le> q" and "p \<in> set ps"
  shows "p \<le> sum_list ps"
  using assms
proof (induction ps)
  case Nil
  then show ?case by simp
next
  case (Cons a ps)
  have "0 \<le> sum_list ps"
    using Cons.prems(1) by (simp add: sum_list_nonneg)
  with Cons show ?case by auto
qed

lemma prio_ge_1: "prio j tree n = Some p \<Longrightarrow> 1 \<le> p"
proof (induction j arbitrary: n p)
  case 0
  then show ?case by (simp add: prio.simps(1))
next
  case (Suc j)
  from Suc.prems obtain children ps where
    mp: "map (prio j tree) children = map Some ps" and p: "p = 1 + sum_list ps"
    by (auto simp: prio.simps(2) those_eq_Some_iff split: option.splits)
  have "0 \<le> q" if "q \<in> set ps" for q
  proof -
    from that have "Some q \<in> set (map (prio j tree) children)"
      unfolding mp by simp
    then obtain c where "prio j tree c = Some q" by auto
    from Suc.IH [OF this] show ?thesis by simp
  qed
  then have "0 \<le> sum_list ps" by (simp add: sum_list_nonneg)
  with p show ?case by simp
qed

lemma prio_child:
  assumes "prio j tree n = Some p" and "(n, c) \<in> edges tree"
  shows "\<exists>pc j'. prio j' tree c = Some pc \<and> pc < p"
proof (cases j)
  case 0
  with assms(1) show ?thesis by (simp add: prio.simps(1))
next
  case (Suc k)
  from assms(2) obtain children where ch: "map_of tree n = Some children" and c: "c \<in> set children"
    by (auto simp: edges_def)
  from assms(1) ch obtain ps where
    mp: "map (prio k tree) children = map Some ps" and p: "p = 1 + sum_list ps"
    by (auto simp: Suc prio.simps(2) those_eq_Some_iff split: option.splits)
  from map_eq_map_Some [OF mp c] obtain pc where pc: "prio k tree c = Some pc" ..
  with c have "Some pc \<in> set (map (prio k tree) children)"
    by force
  then have mem: "pc \<in> set ps"
    unfolding mp by auto
  have "0 \<le> q" if "q \<in> set ps" for q
  proof -
    from that have "Some q \<in> set (map (prio k tree) children)"
      unfolding mp by simp
    then obtain d where "prio k tree d = Some q" by auto
    from prio_ge_1 [OF this] show ?thesis by simp
  qed
  then have "pc \<le> sum_list ps"
    using mem by (intro sum_list_ge_member) simp_all
  with p pc show ?thesis by force
qed

lemma prio_trancl:
  assumes "(n, c) \<in> (edges tree)\<^sup>+" and "prio j tree n = Some p"
  shows "\<exists>pc j'. prio j' tree c = Some pc \<and> pc < p"
  using assms
proof (induction arbitrary: j p rule: trancl_induct)
  case (base c)
  from prio_child [OF base(2) base(1)] show ?case .
next
  case (step c d)
  from step.IH [OF step.prems] obtain pc j' where pc: "prio j' tree c = Some pc" and lt: "pc < p"
    by blast
  from prio_child [OF pc step.hyps(2)] obtain pd j'' where "prio j'' tree d = Some pd" "pd < pc"
    by blast
  with lt show ?case by force
qed

subsection \<open>Ancestors\<close>

lemma edges_trancl_unfold:
  assumes "map_of tree node = Some children"
  shows "(edges tree)\<^sup>+ `` {node} = set children \<union> (\<Union>c\<in>set children. (edges tree)\<^sup>+ `` {c})"
proof -
  have first: "(node, c) \<in> edges tree \<longleftrightarrow> c \<in> set children" for c
    using assms by (simp add: edges_def)
  show ?thesis
  proof (intro set_eqI iffI)
    fix x assume "x \<in> (edges tree)\<^sup>+ `` {node}"
    then have "(node, x) \<in> (edges tree)\<^sup>+" by simp
    then obtain c where "(node, c) \<in> edges tree" and "(c, x) \<in> (edges tree)\<^sup>*"
      by (meson converse_tranclE trancl_into_rtrancl rtrancl.rtrancl_refl)
    then show "x \<in> set children \<union> (\<Union>c\<in>set children. (edges tree)\<^sup>+ `` {c})"
      using first by (auto simp: rtrancl_eq_or_trancl)
  next
    fix x assume "x \<in> set children \<union> (\<Union>c\<in>set children. (edges tree)\<^sup>+ `` {c})"
    then show "x \<in> (edges tree)\<^sup>+ `` {node}"
      using first by (auto intro: trancl_into_trancl2)
  qed
qed

lemma getset_a_update_a:
  shows "anc_memo tree memo \<Longrightarrow> getset_a k tree node memo = Inr (a, memo') \<Longrightarrow>
      set a = (edges tree)\<^sup>+ `` {node} \<and> anc_memo tree memo' \<and> map_of memo' node = Some a
      \<and> dom (map_of memo) \<subseteq> dom (map_of memo')"
    and "anc_memo tree memo \<Longrightarrow> update_a k tree ns ancs memo = Inr (ancs', memo') \<Longrightarrow>
      set ancs' = set ancs \<union> (\<Union>c\<in>set ns. (edges tree)\<^sup>+ `` {c}) \<and> anc_memo tree memo'
      \<and> dom (map_of memo) \<subseteq> dom (map_of memo')"
proof (induction k tree node memo and k tree ns ancs memo arbitrary: a memo' and ancs' memo'
    rule: getset_a_update_a.induct)
  case (1 tree node memo)
  then show ?case
    by (auto simp: anc_memo_def split: option.splits)
next
  case (2 k tree node memo)
  note inv = "2.prems"(1) and run = "2.prems"(2)
  show ?case
  proof (cases "map_of memo node")
    case (Some b)
    with run have "a = b" "memo' = memo" by simp_all
    with Some inv show ?thesis by (auto simp: anc_memo_def)
  next
    case None
    with run obtain children memo1 where
      ch: "lookup tree node = Inr children" and
      up: "update_a k tree children children memo = Inr (a, memo1)" and
      memo': "memo' = AList.update node a memo1"
      by (auto split: sum.splits)
    from "2.IH" [OF None ch inv up] have
      a: "set a = set children \<union> (\<Union>c\<in>set children. (edges tree)\<^sup>+ `` {c})" and
      inv1: "anc_memo tree memo1" and sub: "dom (map_of memo) \<subseteq> dom (map_of memo1)"
      by simp_all
    from ch have mch: "map_of tree node = Some children"
      by (auto simp: lookup_def split: option.splits)
    from a edges_trancl_unfold [OF mch] have a': "set a = (edges tree)\<^sup>+ `` {node}"
      by simp
    have "anc_memo tree memo'"
      unfolding anc_memo_def
    proof (intro allI impI)
      fix n b assume "map_of memo' n = Some b"
      then show "set b = (edges tree)\<^sup>+ `` {n}"
        using inv1 a' by (auto simp: memo' AList.update_conv' anc_memo_def split: if_splits)
    qed
    moreover have "map_of memo' node = Some a"
      by (simp add: memo' AList.update_conv')
    moreover have "dom (map_of memo) \<subseteq> dom (map_of memo')"
      using sub by (auto simp: memo' AList.update_conv')
    ultimately show ?thesis using a' by blast
  qed
next
  case (3 k tree ancs memo)
  then show ?case by auto
next
  case (4 k tree n ns ancs memo)
  note inv = "4.prems"(1) and run = "4.prems"(2)
  from run obtain b memo1 where
    g: "getset_a k tree n memo = Inr (b, memo1)" and
    r: "update_a k tree ns (set_update ancs b) memo1 = Inr (ancs', memo')"
    by (auto split: sum.splits)
  from "4.IH"(1) [OF inv g] have
    b: "set b = (edges tree)\<^sup>+ `` {n}" and inv1: "anc_memo tree memo1" and
    sub1: "dom (map_of memo) \<subseteq> dom (map_of memo1)"
    by simp_all
  from "4.IH"(2) [OF g refl inv1 r] have
    res: "set ancs' = set (set_update ancs b) \<union> (\<Union>c\<in>set ns. (edges tree)\<^sup>+ `` {c})" and
    inv2: "anc_memo tree memo'" and sub2: "dom (map_of memo1) \<subseteq> dom (map_of memo')"
    by simp_all
  from res b have "set ancs' = set ancs \<union> (\<Union>c\<in>set (n # ns). (edges tree)\<^sup>+ `` {c})"
    by (auto simp: set_set_update)
  with inv2 sub1 sub2 show ?case by blast
qed

lemma ancestors_loop_memo:
  assumes "anc_memo tree memo" and "ancestors_loop k tree nodes memo = Inr memo'"
  shows "anc_memo tree memo' \<and> set nodes \<union> dom (map_of memo) \<subseteq> dom (map_of memo')"
  using assms
proof (induction nodes arbitrary: memo)
  case Nil
  then show ?case by simp
next
  case (Cons n nodes)
  from Cons.prems(2) obtain a memo1 where
    g: "getset_a k tree n memo = Inr (a, memo1)" and
    r: "ancestors_loop k tree nodes memo1 = Inr memo'"
    by (auto split: sum.splits)
  from getset_a_update_a(1) [OF Cons.prems(1) g] have
    inv1: "anc_memo tree memo1" and n: "map_of memo1 n = Some a" and
    sub: "dom (map_of memo) \<subseteq> dom (map_of memo1)"
    by simp_all
  from Cons.IH [OF inv1 r] have inv2: "anc_memo tree memo'" and
    sub2: "set nodes \<union> dom (map_of memo1) \<subseteq> dom (map_of memo')"
    by simp_all
  from n have "n \<in> dom (map_of memo1)" by blast
  with sub sub2 have "set (n # nodes) \<union> dom (map_of memo) \<subseteq> dom (map_of memo')"
    by (simp only: set_simps) blast
  with inv2 show ?case ..
qed

lemma get_ancestors_memo:
  assumes "get_ancestors k tree = Inr A"
  shows "anc_memo tree A" and "fst ` set tree \<subseteq> dom (map_of A)"
proof -
  have "anc_memo tree []" by (simp add: anc_memo_def)
  from ancestors_loop_memo [OF this assms [unfolded get_ancestors_def]]
  show "anc_memo tree A" and "fst ` set tree \<subseteq> dom (map_of A)"
    by simp_all
qed

section \<open>The graph builder: the task tree\<close>

subsection \<open>The first pass\<close>

lemma map_of_Some_key: "map_of xs k = Some v \<Longrightarrow> k \<in> fst ` set xs"
  by (force dest: map_of_SomeD)

lemma update_fresh:
  "k \<notin> fst ` set al \<Longrightarrow> AList.update k v al = al @ [(k, v)]"
  by (induction al) auto

lemma define_modules_ok:
  assumes "define_modules src ms mdefs = Inr mdefs'"
  shows "(\<forall>m. map_of mdefs' m = (if m \<in> set ms then Some src else map_of mdefs m))
       \<and> (\<forall>m\<in>set ms. map_of mdefs m = None)"
  using assms
proof (induction ms arbitrary: mdefs)
  case Nil
  then show ?case by simp
next
  case (Cons m ms)
  from Cons.prems have none: "map_of mdefs m = None" and
    rest: "define_modules src ms (AList.update m src mdefs) = Inr mdefs'"
    by (auto split: option.splits)
  from Cons.IH [OF rest] have
    1: "\<forall>x. map_of mdefs' x = (if x \<in> set ms then Some src else map_of (AList.update m src mdefs) x)" and
    2: "\<forall>x\<in>set ms. map_of (AList.update m src mdefs) x = None"
    by simp_all
  have "\<forall>x. map_of mdefs' x = (if x \<in> set (m # ms) then Some src else map_of mdefs x)"
    using 1 by (auto simp: AList.update_conv')
  moreover have "\<forall>x\<in>set (m # ms). map_of mdefs x = None"
    using 2 none by (auto simp: AList.update_conv' split: if_splits)
  ultimately show ?case ..
qed

lemma scan_task_scanned:
  assumes inv: "scanned L fs seen sc" and fresh: "src \<notin> fst ` set seen"
    and run: "scan_task L fs src t sc = Inr sc'"
  shows "scanned L fs (seen @ [(src, t)]) sc'"
proof -
  obtain smods mdefs sdeps hs lnums where sc: "sc = (smods, mdefs, sdeps, hs, lnums)"
    by (cases sc)
  from run obtain bytes nlines defined used mdefs' where
    fl: "fs (source t) = Some bytes" and
    h: "get_hash L fs (source t) (Some (args t)) = Inr (sha1 L (repr_args L (args t) @ bytes))" and
    dm: "define_modules src defined mdefs = Inr mdefs'" and
    sc': "sc' = (AList.update src defined smods, mdefs', AList.update src used sdeps,
                 AList.update src (sha1 L (repr_args L (args t) @ bytes)) hs,
                 AList.update src nlines lnums)"
    by (auto simp: scan_task_def sc get_hash_def split: option.splits sum.splits)
  from inv have keys: "map fst smods = map fst seen" "map fst sdeps = map fst seen"
      "map fst hs = map fst seen" "map fst lnums = map fst seen"
    and hashes: "\<forall>src t. (src, t) \<in> set seen \<longrightarrow>
              (\<exists>bytes. fs (source t) = Some bytes
                 \<and> map_of hs src = Some (sha1 L (repr_args L (args t) @ bytes)))"
    and defs: "\<forall>m d. map_of mdefs m = Some d \<longleftrightarrow>
              (\<exists>defined. map_of smods d = Some defined \<and> m \<in> set defined)"
    by (simp_all add: scanned_def sc)
  from fresh keys have fr: "src \<notin> fst ` set smods" "src \<notin> fst ` set sdeps"
      "src \<notin> fst ` set hs" "src \<notin> fst ` set lnums"
    by (metis set_map)+
  note dmo = define_modules_ok [OF dm]
  have k': "map fst (AList.update src defined smods) = map fst (seen @ [(src, t)])"
      "map fst (AList.update src used sdeps) = map fst (seen @ [(src, t)])"
      "map fst (AList.update src (sha1 L (repr_args L (args t) @ bytes)) hs) = map fst (seen @ [(src, t)])"
      "map fst (AList.update src nlines lnums) = map fst (seen @ [(src, t)])"
    using fr keys by (simp_all add: update_fresh)
  have h': "\<forall>s u. (s, u) \<in> set (seen @ [(src, t)]) \<longrightarrow>
              (\<exists>bytes'. fs (source u) = Some bytes'
                 \<and> map_of (AList.update src (sha1 L (repr_args L (args t) @ bytes)) hs) s
                     = Some (sha1 L (repr_args L (args u) @ bytes')))"
  proof (intro allI impI)
    fix s u assume "(s, u) \<in> set (seen @ [(src, t)])"
    then consider "(s, u) \<in> set seen" | "s = src" "u = t" by auto
    then show "\<exists>bytes'. fs (source u) = Some bytes'
                 \<and> map_of (AList.update src (sha1 L (repr_args L (args t) @ bytes)) hs) s
                     = Some (sha1 L (repr_args L (args u) @ bytes'))"
    proof cases
      case 1
      then have "s \<noteq> src" using fresh by force
      with 1 hashes show ?thesis by (auto simp: AList.update_conv')
    next
      case 2
      with fl show ?thesis by (simp add: AList.update_conv')
    qed
  qed
  have src_none: "map_of smods src = None"
    using fr(1) by (simp add: map_of_eq_None_iff)
  have d': "\<forall>m d. map_of mdefs' m = Some d \<longleftrightarrow>
              (\<exists>df. map_of (AList.update src defined smods) d = Some df \<and> m \<in> set df)"
  proof (intro allI)
    fix m d
    show "map_of mdefs' m = Some d \<longleftrightarrow>
              (\<exists>df. map_of (AList.update src defined smods) d = Some df \<and> m \<in> set df)"
    proof (cases "m \<in> set defined")
      case True
      with dmo have new: "map_of mdefs' m = Some src" and old: "map_of mdefs m = None"
        by simp_all
      from old defs have "\<not> (\<exists>df. map_of smods d = Some df \<and> m \<in> set df)"
        by (metis option.distinct(1))
      with new True show ?thesis
        by (auto simp: AList.update_conv')
    next
      case False
      with dmo have "map_of mdefs' m = map_of mdefs m" by simp
      with False defs src_none show ?thesis
        by (auto simp: AList.update_conv')
    qed
  qed
  from k' h' d' show ?thesis
    unfolding scanned_def sc' by simp
qed

lemma scan_tasks_scanned:
  assumes "scanned L fs seen sc" and "distinct (map fst (seen @ ts))"
    and "scan_tasks L fs ts sc = Inr sc'"
  shows "scanned L fs (seen @ ts) sc'"
  using assms
proof (induction ts arbitrary: seen sc)
  case Nil
  then show ?case by simp
next
  case (Cons st ts)
  obtain src t where st: "st = (src, t)" by (cases st)
  from Cons.prems(3) obtain sc1 where
    one: "scan_task L fs src t sc = Inr sc1" and rest: "scan_tasks L fs ts sc1 = Inr sc'"
    by (auto simp: st split: sum.splits)
  from Cons.prems(2) have fresh: "src \<notin> fst ` set seen"
    by (auto simp: st)
  from scan_task_scanned [OF Cons.prems(1) fresh one]
  have inv1: "scanned L fs (seen @ [(src, t)]) sc1" .
  from Cons.prems(2) have "distinct (map fst ((seen @ [(src, t)]) @ ts))"
    by (simp add: st)
  from Cons.IH [OF inv1 this rest] show ?case
    by (simp add: st)
qed

subsection \<open>The second pass\<close>

lemma discard_all_keys: "map fst (discard_all m sdeps) = map fst sdeps"
  by (induction sdeps) (auto simp: discard_all_def)

lemma prune_tasks_keys:
  "prune_tasks fs ts sdeps = Inr sdeps' \<Longrightarrow> map fst sdeps' = map fst sdeps"
proof (induction ts arbitrary: sdeps)
  case Nil
  then show ?case by simp
next
  case (Cons st ts)
  obtain src t where st: "st = (src, t)" by (cases st)
  show ?case
  proof (cases "incdirs t \<noteq> []")
    case False
    with Cons.prems have "prune_tasks fs ts sdeps = Inr sdeps'" by (simp add: st)
    then show ?thesis by (rule Cons.IH)
  next
    case True
    with Cons.prems obtain used used' where
      l: "lookup sdeps src = Inr used" and
      r: "prune_tasks fs ts (AList.update src used' sdeps) = Inr sdeps'"
      by (auto simp: st split: sum.splits)
    from l have "map_of sdeps src = Some used"
      by (auto simp: lookup_def split: option.splits)
    then have "src \<in> set (map fst sdeps)"
      by (metis map_of_eq_None_iff option.distinct(1) set_map)
    then have "map fst (AList.update src used' sdeps) = map fst sdeps"
      by (simp add: AList.update_keys)
    with Cons.IH [OF r] show ?thesis by simp
  qed
qed

lemma dd_get_update:
  "dd_get (AList.update k v d) x = (if x = k then v else dd_get d x)"
  by (simp add: dd_get_def AList.update_conv')

lemma add_uses_char:
  "set (dd_get (add_uses src ms muses) m)
     = set (dd_get muses m) \<union> (if m \<in> set ms then {src} else {})"
proof (induction ms arbitrary: muses)
  case Nil
  show ?case by simp
next
  case (Cons x ms)
  show ?case
    by (auto simp: Cons.IH dd_get_update)
qed

lemma build_mod_uses_char:
  "set (dd_get (build_mod_uses sdeps muses) m)
     = set (dd_get muses m) \<union> {s. \<exists>mods. (s, mods) \<in> set sdeps \<and> m \<in> set mods}"
proof (induction sdeps arbitrary: muses)
  case Nil
  show ?case by simp
next
  case (Cons sm sdeps)
  obtain s mods where sm: "sm = (s, mods)" by (cases sm)
  show ?case
    unfolding sm by (auto simp: Cons.IH add_uses_char)
qed

lemma definers_char:
  "definers mdefs mods = Inr ds \<Longrightarrow> set ds = {d. \<exists>m\<in>set mods. map_of mdefs m = Some d}"
proof (induction mods arbitrary: ds)
  case Nil
  then show ?case by simp
next
  case (Cons m mods)
  from Cons.prems obtain d ds' where
    d: "map_of mdefs m = Some d" and r: "definers mdefs mods = Inr ds'" and
    ds: "ds = remdups (d # ds')"
    by (auto simp: lookup_def split: sum.splits option.splits)
  from Cons.IH [OF r] d ds show ?case
    by auto
qed

lemma ancestors_tree_char:
  assumes "ancestors_tree mdefs sdeps = Inr atree"
  shows "map fst atree = map fst sdeps
       \<and> (\<forall>s d. (s, d) \<in> edges atree \<longleftrightarrow>
             (\<exists>mods m. map_of sdeps s = Some mods \<and> m \<in> set mods \<and> map_of mdefs m = Some d))"
  using assms
proof (induction sdeps arbitrary: atree)
  case Nil
  then show ?case by (simp add: edges_def)
next
  case (Cons sm sdeps)
  obtain s0 mods0 where sm: "sm = (s0, mods0)" by (cases sm)
  from Cons.prems obtain ds tr where
    ds: "definers mdefs mods0 = Inr ds" and r: "ancestors_tree mdefs sdeps = Inr tr" and
    atree: "atree = (s0, ds) # tr"
    by (auto simp: sm split: sum.splits)
  note dsc = definers_char [OF ds]
  from Cons.IH [OF r] have keys: "map fst tr = map fst sdeps" and
    ed: "\<forall>s d. (s, d) \<in> edges tr \<longleftrightarrow>
             (\<exists>mods m. map_of sdeps s = Some mods \<and> m \<in> set mods \<and> map_of mdefs m = Some d)"
    by simp_all
  have "\<forall>s d. (s, d) \<in> edges atree \<longleftrightarrow>
             (\<exists>mods m. map_of (sm # sdeps) s = Some mods \<and> m \<in> set mods \<and> map_of mdefs m = Some d)"
  proof (intro allI)
    fix s d
    show "(s, d) \<in> edges atree \<longleftrightarrow>
             (\<exists>mods m. map_of (sm # sdeps) s = Some mods \<and> m \<in> set mods \<and> map_of mdefs m = Some d)"
    proof (cases "s = s0")
      case True
      then show ?thesis
        using dsc by (auto simp: atree sm edges_def)
    next
      case False
      then have "(s, d) \<in> edges atree \<longleftrightarrow> (s, d) \<in> edges tr"
        by (simp add: atree edges_def)
      with False ed show ?thesis
        by (simp add: sm)
    qed
  qed
  with keys show ?case by (simp add: atree sm)
qed

lemma edges_priority_tree:
  "edges (priority_tree smods muses)
     = {(d, s). \<exists>mods m. map_of smods d = Some mods \<and> m \<in> set mods \<and> s \<in> set (dd_get muses m)}"
proof -
  have "map_of (priority_tree smods muses) d
          = map_option (\<lambda>mods. concat (map (dd_get muses) mods)) (map_of smods d)" for d
    by (induction smods) (auto simp: priority_tree_def)
  then show ?thesis
    by (auto simp: edges_def)
qed

lemma priority_tree_keys: "map fst (priority_tree smods muses) = map fst smods"
  by (induction smods) (auto simp: priority_tree_def)

subsection \<open>The task tree\<close>

lemma dd_get_Nil: "dd_get [] k = []"
  by (simp add: dd_get_def)

lemma get_tree_sound:
  assumes run: "get_tree L fs tasks = Inr tree" and dist: "distinct (map fst tasks)"
  shows "map fst (src_mods tree) = map fst tasks"
    and "map fst (hashes tree) = map fst tasks"
    and "map fst (line_nums tree) = map fst tasks"
    and "\<forall>src t. (src, t) \<in> set tasks \<longrightarrow>
           (\<exists>bytes. fs (source t) = Some bytes
              \<and> map_of (hashes tree) src = Some (sha1 L (repr_args L (args t) @ bytes)))"
    and "fst ` set tasks \<subseteq> dom (map_of (priority tree))"
    and "prio_memo (priority_tree (src_mods tree) (mod_uses tree)) (priority tree)"
    and "edges (priority_tree (src_mods tree) (mod_uses tree)) = uses_edge tree"
    and "fst ` set tasks \<subseteq> dom (map_of (ancestors tree))"
    and "\<forall>s a. map_of (ancestors tree) s = Some a \<longrightarrow> set a = {d. (d, s) \<in> (uses_edge tree)\<^sup>+}"
    and "\<forall>m s. s \<in> set (dd_get (mod_uses tree) m) \<longrightarrow> s \<in> fst ` set tasks"
proof -
  from run obtain smods mdefs sdeps0 hs lnums where
    scan: "scan_tasks L fs tasks ([], [], [], [], []) = Inr (smods, mdefs, sdeps0, hs, lnums)"
    by (auto simp: get_tree_def split: sum.splits)
  let ?d1 = "discard_all ''iso_c_binding'' sdeps0"
  let ?d2 = "if map_of mdefs ''mpi'' = None then discard_all ''mpi'' ?d1 else ?d1"
  from run scan obtain sdeps prio atree ancs where
    prune: "prune_tasks fs tasks ?d2 = Inr sdeps" and
    prio: "get_priority (prio_depth L) (priority_tree smods (build_mod_uses sdeps [])) = Inr prio" and
    atree: "ancestors_tree mdefs sdeps = Inr atree" and
    ancs: "get_ancestors (anc_depth L) atree = Inr ancs" and
    tree: "tree = \<lparr>src_mods = smods, mod_uses = build_mod_uses sdeps [], hashes = hs,
                    line_nums = lnums, priority = prio, ancestors = ancs\<rparr>"
    by (auto simp: get_tree_def Let_def split: sum.splits)
  have "scanned L fs [] ([], [], [], [], [])"
    by (simp add: scanned_def)
  from scan_tasks_scanned [OF this _ scan] dist
  have sc: "scanned L fs tasks (smods, mdefs, sdeps0, hs, lnums)"
    by simp
  then have keys: "map fst smods = map fst tasks" "map fst sdeps0 = map fst tasks"
      "map fst hs = map fst tasks" "map fst lnums = map fst tasks"
    and hash: "\<forall>src t. (src, t) \<in> set tasks \<longrightarrow>
              (\<exists>bytes. fs (source t) = Some bytes
                 \<and> map_of hs src = Some (sha1 L (repr_args L (args t) @ bytes)))"
    and defs: "\<forall>m d. map_of mdefs m = Some d \<longleftrightarrow>
              (\<exists>defined. map_of smods d = Some defined \<and> m \<in> set defined)"
    by (simp_all add: scanned_def)
  have "map fst ?d2 = map fst tasks"
    by (simp add: discard_all_keys keys)
  with prune_tasks_keys [OF prune] have dkeys: "map fst sdeps = map fst tasks"
    by simp
  with dist have ddist: "distinct (map fst sdeps)"
    by simp
  show "map fst (src_mods tree) = map fst tasks" "map fst (hashes tree) = map fst tasks"
    "map fst (line_nums tree) = map fst tasks"
    by (simp_all add: tree keys)
  show "\<forall>src t. (src, t) \<in> set tasks \<longrightarrow>
           (\<exists>bytes. fs (source t) = Some bytes
              \<and> map_of (hashes tree) src = Some (sha1 L (repr_args L (args t) @ bytes)))"
    using hash by (simp add: tree)
  have pkeys: "fst ` set (priority_tree smods (build_mod_uses sdeps [])) = fst ` set tasks"
    by (metis priority_tree_keys keys(1) set_map)
  from get_priority_memo [OF prio] pkeys
  show "fst ` set tasks \<subseteq> dom (map_of (priority tree))"
    and "prio_memo (priority_tree (src_mods tree) (mod_uses tree)) (priority tree)"
    by (simp_all add: tree)
  show pe: "edges (priority_tree (src_mods tree) (mod_uses tree)) = uses_edge tree"
    by (simp add: edges_priority_tree uses_edge_def)
  note atc = ancestors_tree_char [OF atree]
  from atc have "fst ` set atree = fst ` set tasks"
    by (metis dkeys set_map)
  with get_ancestors_memo [OF ancs]
  show "fst ` set tasks \<subseteq> dom (map_of (ancestors tree))"
    by (simp add: tree)
  have uses: "s \<in> set (dd_get (build_mod_uses sdeps []) m)
                \<longleftrightarrow> (\<exists>mods. map_of sdeps s = Some mods \<and> m \<in> set mods)" for s m
    using ddist by (auto simp: build_mod_uses_char dd_get_Nil)
  have conv: "edges atree = (uses_edge tree)\<inverse>"
  proof (intro set_eqI iffI)
    fix x assume "x \<in> edges atree"
    moreover obtain s d where x: "x = (s, d)" by (cases x)
    ultimately obtain mods m where "map_of sdeps s = Some mods" "m \<in> set mods"
      "map_of mdefs m = Some d"
      using atc by blast
    with defs uses show "x \<in> (uses_edge tree)\<inverse>"
      unfolding x by (auto simp: uses_edge_def tree)
  next
    fix x assume "x \<in> (uses_edge tree)\<inverse>"
    moreover obtain s d where x: "x = (s, d)" by (cases x)
    ultimately obtain df m where "map_of smods d = Some df" "m \<in> set df"
      "s \<in> set (dd_get (build_mod_uses sdeps []) m)"
      by (auto simp: uses_edge_def tree)
    with defs uses atc show "x \<in> edges atree"
      unfolding x by blast
  qed
  from get_ancestors_memo(1) [OF ancs]
  show "\<forall>s a. map_of (ancestors tree) s = Some a \<longrightarrow> set a = {d. (d, s) \<in> (uses_edge tree)\<^sup>+}"
    by (auto simp: anc_memo_def tree [symmetric] conv trancl_converse
          simp del: TaskTree.simps) (simp_all add: tree)
  show "\<forall>m s. s \<in> set (dd_get (mod_uses tree) m) \<longrightarrow> s \<in> fst ` set tasks"
  proof (intro allI impI)
    fix m s assume "s \<in> set (dd_get (mod_uses tree) m)"
    with uses obtain mods where "map_of sdeps s = Some mods"
      by (auto simp: tree)
    then have "s \<in> fst ` set sdeps" by (rule map_of_Some_key)
    then show "s \<in> fst ` set tasks"
      by (metis dkeys set_map)
  qed
qed

section \<open>The scheduler: scheduled sources have no hash\<close>

lemma dispatch_one_error:
  "dispatch_one tasks tree B src st = Inl (e, st') \<Longrightarrow> \<exists>k. e = KeyError k"
  by (auto simp: dispatch_one_def Let_def split: option.splits if_splits)

lemma dispatch_loop_error:
  "dispatch_loop tasks tree B xs st = Inl (e, st') \<Longrightarrow> \<exists>k. e = KeyError k"
proof (induction xs arbitrary: st)
  case Nil
  then show ?case by simp
next
  case (Cons x xs)
  then show ?case
    by (auto split: sum.splits dest: dispatch_one_error)
qed

lemma dispatch_error:
  "dispatch tasks tree st = Inl (e, st') \<Longrightarrow> \<exists>k. e = KeyError k"
  unfolding dispatch_def by (rule dispatch_loop_error)

lemma invalidate_error:
  "invalidate tree ds st = Inl (e, st') \<Longrightarrow> e = AssertionError \<or> (\<exists>k. e = KeyError k)"
proof (induction ds arbitrary: st)
  case Nil
  then show ?case by simp
next
  case (Cons d ds)
  then show ?case
    by (auto simp: Let_def split: if_splits option.splits)
qed

lemma propagate_mod_error:
  "propagate_mod L fs tree m st = Inl (e, st') \<Longrightarrow>
     e = AssertionError \<or> (\<exists>k. e = KeyError k) \<or> (\<exists>p. e = FileNotFoundError p)"
  by (auto simp: propagate_mod_def get_hash_def Let_def split: option.splits sum.splits if_splits
        dest: invalidate_error)

lemma propagate_error:
  "propagate L fs tree ms st = Inl (e, st') \<Longrightarrow>
     e = AssertionError \<or> (\<exists>k. e = KeyError k) \<or> (\<exists>p. e = FileNotFoundError p)"
proof (induction ms arbitrary: st)
  case Nil
  then show ?case by simp
next
  case (Cons m ms)
  show ?case
  proof (cases "propagate_mod L fs tree m st")
    case (Inl r)
    with Cons.prems have "propagate_mod L fs tree m st = Inl (e, st')" by simp
    then show ?thesis by (rule propagate_mod_error)
  next
    case (Inr st1)
    with Cons.prems have "propagate L fs tree ms st1 = Inl (e, st')" by simp
    then show ?thesis by (rule Cons.IH)
  qed
qed

lemma complete_CompilationError:
  assumes "complete L tree src rc fs st = Inl (CompilationError s r, st')"
  shows "s = src \<and> r = rc \<and> st' = st"
proof (cases "rc = 0")
  case False
  with assms show ?thesis by (simp add: complete_def)
next
  case True
  with assms obtain st2 ms where "propagate L fs tree ms st2 = Inl (CompilationError s r, st')"
    by (auto simp: complete_def Let_def split: option.splits if_splits)
  from propagate_error [OF this] show ?thesis by simp
qed

lemma dispatch_one_unhashed:
  assumes "unhashed tasks st" and "dispatch_one tasks tree B src st = Inr st'"
  shows "unhashed tasks st'"
proof (cases "st' = st")
  case True
  with assms(1) show ?thesis by simp
next
  case False
  with assms(2) obtain p t where t: "map_of tasks src = Some t" and
    st': "st' = st\<lparr>live := AList.delete src (live st),
                    task_queue := task_queue st @ [(- p, src, args t @ [source t])],
                    scheduled := set_add src (scheduled st),
                    waiting := removeAll src (waiting st)\<rparr>"
    by (auto simp: dispatch_one_def Let_def split: option.splits if_splits)
  from t have key: "src \<in> fst ` set tasks" by (rule map_of_Some_key)
  from assms(1) have sub: "set (scheduled st) \<subseteq> fst ` set tasks"
    and none: "\<forall>x\<in>set (scheduled st). map_of (live st) x = None"
    by (simp_all add: unhashed_def)
  have "set (scheduled st') \<subseteq> insert src (set (scheduled st))"
    by (auto simp: st' set_add_def)
  with sub key have 1: "set (scheduled st') \<subseteq> fst ` set tasks"
    by blast
  have 2: "\<forall>x\<in>set (scheduled st'). map_of (live st') x = None"
    using none by (auto simp: st' set_add_def AList.delete_conv')
  from 1 2 show ?thesis by (simp add: unhashed_def)
qed

lemma dispatch_loop_unhashed:
  assumes "unhashed tasks st" and "dispatch_loop tasks tree B xs st = Inr st'"
  shows "unhashed tasks st'"
  using assms
proof (induction xs arbitrary: st)
  case Nil
  then show ?case by simp
next
  case (Cons x xs)
  from Cons.prems(2) obtain st1 where
    one: "dispatch_one tasks tree B x st = Inr st1" and
    rest: "dispatch_loop tasks tree B xs st1 = Inr st'"
    by (auto split: sum.splits)
  from dispatch_one_unhashed [OF Cons.prems(1) one] rest show ?case
    by (rule Cons.IH)
qed

lemma invalidate_unhashed:
  assumes "unhashed tasks st" and "invalidate tree ds st = Inr st'"
  shows "unhashed tasks st'"
  using assms
proof (induction ds arbitrary: st)
  case Nil
  then show ?case by simp
next
  case (Cons d ds)
  show ?case
  proof (cases "d \<in> set (waiting st)")
    case True
    with Cons.prems(2) have "invalidate tree ds (st\<lparr>live := AList.delete d (live st)\<rparr>) = Inr st'"
      by (auto simp: Let_def split: if_splits)
    moreover from Cons.prems(1) have "unhashed tasks (st\<lparr>live := AList.delete d (live st)\<rparr>)"
      by (auto simp: unhashed_def AList.delete_conv')
    ultimately show ?thesis by (rule Cons.IH [rotated])
  next
    case False
    with Cons.prems(2) obtain n where
      "invalidate tree ds (st\<lparr>live := AList.delete d (live st), n_all_lines := n_all_lines st + n,
                              waiting := waiting st @ [d]\<rparr>) = Inr st'"
      by (auto simp: Let_def split: if_splits option.splits)
    moreover from Cons.prems(1)
    have "unhashed tasks (st\<lparr>live := AList.delete d (live st), n_all_lines := n_all_lines st + n,
                              waiting := waiting st @ [d]\<rparr>)"
      by (auto simp: unhashed_def AList.delete_conv')
    ultimately show ?thesis by (rule Cons.IH [rotated])
  qed
qed

lemma propagate_mod_unhashed:
  assumes "unhashed tasks st" and "m @ ''.mod'' \<notin> fst ` set tasks"
    and "propagate_mod L fs tree m st = Inr st'"
  shows "unhashed tasks st'"
proof (cases "get_hash L fs (m @ ''.mod'') None")
  case (Inl e)
  with assms(3) show ?thesis by (simp add: propagate_mod_def)
next
  case (Inr h)
  show ?thesis
  proof (cases "Some (JStr h) \<noteq> map_of (live st) (m @ ''.mod'')")
    case False
    with Inr assms(3) have "st' = st" by (simp add: propagate_mod_def Let_def)
    with assms(1) show ?thesis by simp
  next
    case True
    with Inr assms(3)
    have inv: "invalidate tree (dd_get (mod_uses tree) m)
                 (st\<lparr>live := AList.update (m @ ''.mod'') (JStr h) (live st)\<rparr>) = Inr st'"
      by (simp add: propagate_mod_def Let_def)
    from assms(1,2) have "unhashed tasks (st\<lparr>live := AList.update (m @ ''.mod'') (JStr h) (live st)\<rparr>)"
      by (auto simp: unhashed_def AList.update_conv')
    from this inv show ?thesis by (rule invalidate_unhashed)
  qed
qed

lemma propagate_unhashed:
  assumes "unhashed tasks st" and "\<forall>m\<in>set ms. m @ ''.mod'' \<notin> fst ` set tasks"
    and "propagate L fs tree ms st = Inr st'"
  shows "unhashed tasks st'"
  using assms
proof (induction ms arbitrary: st)
  case Nil
  then show ?case by simp
next
  case (Cons m ms)
  from Cons.prems(3) obtain st1 where
    one: "propagate_mod L fs tree m st = Inr st1" and
    rest: "propagate L fs tree ms st1 = Inr st'"
    by (auto split: sum.splits)
  from Cons.prems(2) have m: "m @ ''.mod'' \<notin> fst ` set tasks" and ms: "\<forall>m\<in>set ms. m @ ''.mod'' \<notin> fst ` set tasks"
    by simp_all
  from propagate_mod_unhashed [OF Cons.prems(1) m one] ms rest show ?case
    by (rule Cons.IH)
qed

lemma complete_unhashed:
  assumes clash: "set (artifacts tree) \<inter> fst ` set tasks = {}"
    and inv: "unhashed tasks st"
    and run: "complete L tree src rc fs st = Inr st'"
  shows "unhashed tasks st'"
proof -
  from run obtain n h ms where
    ms: "map_of (src_mods tree) src = Some ms" and
    p: "propagate L fs tree ms
          (st\<lparr>live := AList.update src (JStr h) (live st), n_lines := n_lines st + n,
              scheduled := removeAll src (scheduled st)\<rparr>) = Inr st'"
    by (auto simp: complete_def Let_def split: option.splits if_splits)
  from inv have 1: "unhashed tasks (st\<lparr>live := AList.update src (JStr h) (live st),
                       n_lines := n_lines st + n, scheduled := removeAll src (scheduled st)\<rparr>)"
    by (auto simp: unhashed_def AList.update_conv')
  from ms have "(src, ms) \<in> set (src_mods tree)" by (rule map_of_SomeD)
  then have "\<forall>m\<in>set ms. m @ ''.mod'' \<in> set (artifacts tree)"
    by (force simp: artifacts_def)
  with clash have 2: "\<forall>m\<in>set ms. m @ ''.mod'' \<notin> fst ` set tasks"
    by blast
  from 1 2 p show ?thesis by (rule propagate_unhashed)
qed

lemma sum_lines_error: "sum_lines tree xs = Inl e \<Longrightarrow> \<exists>k. e = KeyError k"
  by (induction xs arbitrary: e) (auto simp: lookup_def split: sum.splits option.splits)

lemma scheduler_CompilationError:
  assumes clash: "set (artifacts tree) \<inter> fst ` set tasks = {}"
    and run: "scheduler L tasks tree hs ch evs = Raised (CompilationError s rc) st'"
  shows "map_of (live st') s = None"
proof -
  let ?st0 = "\<lparr>live = hs, waiting = [], scheduled = [], n_lines = 0, n_all_lines = 0,
                 task_queue = []\<rparr>"
  have loop: "\<exists>n. scheduler_loop L tasks tree evs (?st0\<lparr>n_all_lines := n, waiting := remdups ch\<rparr>)
             = Raised (CompilationError s rc) st'"
  proof (cases "sum_lines tree ch")
    case (Inl e)
    from sum_lines_error [OF this] obtain k where "e = KeyError k" ..
    with Inl run show ?thesis by (simp add: scheduler_def)
  next
    case (Inr n)
    with run show ?thesis by (auto simp: scheduler_def)
  qed
  then obtain n where
    loop: "scheduler_loop L tasks tree evs (?st0\<lparr>n_all_lines := n, waiting := remdups ch\<rparr>)
             = Raised (CompilationError s rc) st'" ..
  have inv0: "unhashed tasks (?st0\<lparr>n_all_lines := n, waiting := remdups ch\<rparr>)"
    by (simp add: unhashed_def)
  have "(\<exists>st0. unhashed tasks st0 \<and> dispatch tasks tree st0 = Inl (CompilationError s rc, st'))
       \<or> CompilationError s rc = ZeroDivisionError \<or> CompilationError s rc = KeyboardInterrupt
       \<or> (\<exists>st1 src r fs. unhashed tasks st1 \<and> src \<in> set (scheduled st1)
             \<and> complete L tree src r fs st1 = Inl (CompilationError s rc, st'))"
  proof (rule scheduler_loop_Raised [where Inv = "unhashed tasks", OF inv0 _ _ loop])
    fix st st1 assume "unhashed tasks st" "dispatch tasks tree st = Inr st1"
    then show "unhashed tasks st1"
      unfolding dispatch_def by (rule dispatch_loop_unhashed)
  next
    fix st src r fs st2
    assume "unhashed tasks st" "complete L tree src r fs st = Inr st2"
    with clash show "unhashed tasks st2" by (rule complete_unhashed)
  qed
  then obtain st1 src r fs where
    inv1: "unhashed tasks st1" and sched: "src \<in> set (scheduled st1)" and
    c: "complete L tree src r fs st1 = Inl (CompilationError s rc, st')"
    by (auto dest: dispatch_error)
  from complete_CompilationError [OF c] have "s = src" "st' = st1" by simp_all
  with inv1 sched show ?thesis by (simp add: unhashed_def)
qed

section \<open>The scheduler: scheduled sources have no unfinished ancestor\<close>



lemma get_tree_ancestral:
  assumes "get_tree L fs tasks = Inr tree" and "distinct (map fst tasks)"
  shows "ancestral tree"
proof -
  note anc = get_tree_sound(9) [OF assms] and dom = get_tree_sound(8) [OF assms]
    and users = get_tree_sound(10) [OF assms]
  have 1: "\<exists>a. map_of (ancestors tree) d = Some a \<and> src \<in> set a"
    if "map_of (src_mods tree) src = Some mods" "m \<in> set mods" "d \<in> set (dd_get (mod_uses tree) m)"
    for src mods m d
  proof -
    from that have e: "(src, d) \<in> uses_edge tree"
      by (auto simp: uses_edge_def)
    from that(3) users have "d \<in> fst ` set tasks" by blast
    with dom obtain a where a: "map_of (ancestors tree) d = Some a" by blast
    with anc have "set a = {x. (x, d) \<in> (uses_edge tree)\<^sup>+}" by blast
    with e a show ?thesis by blast
  qed
  have 2: "set b \<subseteq> set a"
    if "map_of (ancestors tree) s = Some a" "x \<in> set a" "map_of (ancestors tree) x = Some b"
    for s a x b
  proof -
    from that(1) anc have a: "set a = {d. (d, s) \<in> (uses_edge tree)\<^sup>+}" by blast
    from that(3) anc have b: "set b = {d. (d, x) \<in> (uses_edge tree)\<^sup>+}" by blast
    from that(2) a have "(x, s) \<in> (uses_edge tree)\<^sup>+" by simp
    with a b show ?thesis by (auto intro: trancl_trans)
  qed
  from 1 2 show ?thesis
    unfolding ancestral_def by blast
qed

lemma invalidate_gated:
  assumes anc: "ancestral tree"
    and users: "\<forall>d\<in>set ds. \<exists>a. map_of (ancestors tree) d = Some a \<and> src \<in> set a"
    and inv: "gated_but src tree st"
  shows "(\<forall>st'. invalidate tree ds st \<noteq> Inl (AssertionError, st'))
       \<and> (\<forall>st'. invalidate tree ds st = Inr st' \<longrightarrow> gated_but src tree st')"
  using users inv
proof (induction ds arbitrary: st)
  case Nil
  then show ?case by simp
next
  case (Cons d ds)
  from Cons.prems(1) obtain b where b: "map_of (ancestors tree) d = Some b" and src: "src \<in> set b"
    by auto
  from Cons.prems(1) have rest: "\<forall>d\<in>set ds. \<exists>a. map_of (ancestors tree) d = Some a \<and> src \<in> set a"
    by simp
  have nsched: "d \<notin> set (scheduled st)"
  proof
    assume "d \<in> set (scheduled st)"
    with Cons.prems(2) obtain a where "map_of (ancestors tree) d = Some a"
      and "set a \<inter> insert src (set (waiting st) \<union> set (scheduled st)) = {}"
      unfolding gated_but_def by blast
    with b have "set b \<inter> insert src (set (waiting st) \<union> set (scheduled st)) = {}"
      by simp
    with src show False by blast
  qed
  show ?case
  proof (cases "d \<in> set (waiting st)")
    case True
    let ?st1 = "st\<lparr>live := AList.delete d (live st)\<rparr>"
    have eq: "invalidate tree (d # ds) st = invalidate tree ds ?st1"
      using nsched True by simp
    from Cons.prems(2) have "gated_but src tree ?st1"
      by (simp add: gated_but_def)
    from Cons.IH [OF rest this] show ?thesis
      unfolding eq .
  next
    case False
    show ?thesis
    proof (cases "map_of (line_nums tree) d")
      case None
      with nsched False show ?thesis by simp
    next
      case (Some n)
      let ?st2 = "st\<lparr>live := AList.delete d (live st), n_all_lines := n_all_lines st + n,
                      waiting := waiting st @ [d]\<rparr>"
      have eq: "invalidate tree (d # ds) st = invalidate tree ds ?st2"
        using nsched False Some by simp
      have "gated_but src tree ?st2"
        unfolding gated_but_def
      proof
        fix s assume "s \<in> set (scheduled ?st2)"
        then have s: "s \<in> set (scheduled st)" by simp
        with Cons.prems(2) obtain a where a: "map_of (ancestors tree) s = Some a" and
          dis: "set a \<inter> insert src (set (waiting st) \<union> set (scheduled st)) = {}"
          by (auto simp: gated_but_def)
        have "d \<notin> set a"
        proof
          assume "d \<in> set a"
          with anc a b have "set b \<subseteq> set a"
            unfolding ancestral_def by blast
          with src dis show False by blast
        qed
        with dis have "set a \<inter> insert src (set (waiting ?st2) \<union> set (scheduled ?st2)) = {}"
          by auto
        with a show "\<exists>a. map_of (ancestors tree) s = Some a
            \<and> set a \<inter> insert src (set (waiting ?st2) \<union> set (scheduled ?st2)) = {}"
          by blast
      qed
      from Cons.IH [OF rest this] show ?thesis
        unfolding eq .
    qed
  qed
qed

lemma propagate_mod_gated:
  assumes anc: "ancestral tree"
    and m: "map_of (src_mods tree) src = Some mods" "m \<in> set mods"
    and inv: "gated_but src tree st"
  shows "(\<forall>st'. propagate_mod L fs tree m st \<noteq> Inl (AssertionError, st'))
       \<and> (\<forall>st'. propagate_mod L fs tree m st = Inr st' \<longrightarrow> gated_but src tree st')"
proof (cases "get_hash L fs (m @ ''.mod'') None")
  case (Inl e)
  then have "\<exists>p. e = FileNotFoundError p"
    by (auto simp: get_hash_def split: option.splits)
  with Inl show ?thesis by (auto simp: propagate_mod_def)
next
  case (Inr h)
  show ?thesis
  proof (cases "Some (JStr h) \<noteq> map_of (live st) (m @ ''.mod'')")
    case False
    with Inr inv show ?thesis by (simp add: propagate_mod_def Let_def)
  next
    case True
    let ?st1 = "st\<lparr>live := AList.update (m @ ''.mod'') (JStr h) (live st)\<rparr>"
    from Inr True have eq: "propagate_mod L fs tree m st = invalidate tree (dd_get (mod_uses tree) m) ?st1"
      by (simp add: propagate_mod_def Let_def)
    from anc m have users: "\<forall>d\<in>set (dd_get (mod_uses tree) m).
        \<exists>a. map_of (ancestors tree) d = Some a \<and> src \<in> set a"
      unfolding ancestral_def by blast
    from inv have "gated_but src tree ?st1"
      by (simp add: gated_but_def)
    from invalidate_gated [OF anc users this] show ?thesis
      unfolding eq .
  qed
qed

lemma propagate_gated:
  assumes anc: "ancestral tree"
    and m: "map_of (src_mods tree) src = Some mods" "set ms \<subseteq> set mods"
    and inv: "gated_but src tree st"
  shows "(\<forall>st'. propagate L fs tree ms st \<noteq> Inl (AssertionError, st'))
       \<and> (\<forall>st'. propagate L fs tree ms st = Inr st' \<longrightarrow> gated_but src tree st')"
  using m(2) inv
proof (induction ms arbitrary: st)
  case Nil
  then show ?case by simp
next
  case (Cons x ms)
  from Cons.prems(1) have x: "x \<in> set mods" and rest: "set ms \<subseteq> set mods" by simp_all
  note one = propagate_mod_gated [OF anc m(1) x Cons.prems(2), of L fs]
  show ?case
  proof (cases "propagate_mod L fs tree x st")
    case (Inl r)
    with one show ?thesis by (cases r) auto
  next
    case (Inr st1)
    with one have "gated_but src tree st1" by blast
    from Cons.IH [OF rest this] Inr show ?thesis by simp
  qed
qed

lemma complete_gated:
  assumes anc: "ancestral tree" and inv: "gated tree st"
  shows "(\<forall>st'. complete L tree src rc fs st \<noteq> Inl (AssertionError, st'))
       \<and> (\<forall>st'. complete L tree src rc fs st = Inr st' \<longrightarrow> gated tree st')"
proof (cases "rc \<noteq> 0 \<or> map_of (line_nums tree) src = None \<or> map_of (hashes tree) src = None
                \<or> src \<notin> set (scheduled st) \<or> map_of (src_mods tree) src = None")
  case True
  then show ?thesis
    by (auto simp: complete_def Let_def split: option.splits)
next
  case False
  then obtain n h mods where n: "map_of (line_nums tree) src = Some n" and
    h: "map_of (hashes tree) src = Some h" and mods: "map_of (src_mods tree) src = Some mods" and
    rc: "rc = 0" and sched: "src \<in> set (scheduled st)"
    by auto
  let ?st2 = "st\<lparr>live := AList.update src (JStr h) (live st), n_lines := n_lines st + n,
                  scheduled := removeAll src (scheduled st)\<rparr>"
  have eq: "complete L tree src rc fs st = propagate L fs tree mods ?st2"
    using n h mods rc sched by (simp add: complete_def Let_def)
  have "gated_but src tree ?st2"
    unfolding gated_but_def
  proof
    fix s assume "s \<in> set (scheduled ?st2)"
    then have "s \<in> set (scheduled st)" by simp
    with inv obtain a where a: "map_of (ancestors tree) s = Some a" and
      dis: "set a \<inter> (set (waiting st) \<union> set (scheduled st)) = {}"
      by (auto simp: gated_def ready_def split: option.splits)
    from dis sched have "set a \<inter> insert src (set (waiting ?st2) \<union> set (scheduled ?st2)) = {}"
      by auto
    with a show "\<exists>a. map_of (ancestors tree) s = Some a
            \<and> set a \<inter> insert src (set (waiting ?st2) \<union> set (scheduled ?st2)) = {}"
      by blast
  qed
  from propagate_gated [OF anc mods subset_refl this, of L fs]
  have 1: "\<forall>st'. propagate L fs tree mods ?st2 \<noteq> Inl (AssertionError, st')" and
    2: "\<forall>st'. propagate L fs tree mods ?st2 = Inr st' \<longrightarrow> gated_but src tree st'"
    by simp_all
  have "gated tree st'" if "gated_but src tree st'" for st'
    using that by (auto simp: gated_def gated_but_def ready_def)
  with 1 2 show ?thesis
    unfolding eq by blast
qed

lemma dispatch_one_gated:
  assumes inv: "gated tree st" and B: "set B = set (waiting st) \<union> set (scheduled st)"
    and src: "src \<in> set (waiting st) \<union> set (scheduled st)"
    and run: "dispatch_one tasks tree B src st = Inr st'"
  shows "gated tree st'"
proof -
  note u = dispatch_one_union [OF src run]
  have sched: "set (scheduled st') \<subseteq> insert src (set (scheduled st))"
    using run by (auto simp: dispatch_one_def Let_def set_add_def split: option.splits if_splits)
  have new: "ready tree st src" if "src \<in> set (scheduled st')" "src \<notin> set (scheduled st)"
  proof -
    from that have "st' \<noteq> st" by auto
    with run B show ?thesis
      by (auto simp: dispatch_one_def Let_def ready_def Int_commute split: option.splits if_splits)
  qed
  show ?thesis
    unfolding gated_def
  proof
    fix s assume s: "s \<in> set (scheduled st')"
    have "ready tree st s"
    proof (cases "s \<in> set (scheduled st)")
      case True
      with inv show ?thesis by (simp add: gated_def)
    next
      case False
      with s sched have "s = src" by blast
      with s False new show ?thesis by simp
    qed
    then show "ready tree st' s"
      unfolding ready_def u .
  qed
qed

lemma dispatch_loop_gated:
  assumes "gated tree st" and "set B = set (waiting st) \<union> set (scheduled st)"
    and "set xs \<subseteq> set (waiting st) \<union> set (scheduled st)"
    and "dispatch_loop tasks tree B xs st = Inr st'"
  shows "gated tree st'"
  using assms
proof (induction xs arbitrary: st)
  case Nil
  then show ?case by simp
next
  case (Cons x xs)
  from Cons.prems(4) obtain st1 where
    one: "dispatch_one tasks tree B x st = Inr st1" and
    rest: "dispatch_loop tasks tree B xs st1 = Inr st'"
    by (auto split: sum.splits)
  from Cons.prems(3) have x: "x \<in> set (waiting st) \<union> set (scheduled st)" by simp
  note u = dispatch_one_union [OF x one]
  from dispatch_one_gated [OF Cons.prems(1,2) x one] have g1: "gated tree st1" .
  from Cons.prems(2) u have B1: "set B = set (waiting st1) \<union> set (scheduled st1)" by simp
  from Cons.prems(3) u have xs1: "set xs \<subseteq> set (waiting st1) \<union> set (scheduled st1)" by simp
  from g1 B1 xs1 rest show ?case by (rule Cons.IH)
qed

lemma dispatch_gated:
  assumes "gated tree st" and "dispatch tasks tree st = Inr st'"
  shows "gated tree st'"
proof -
  have B: "set (set_update (waiting st) (scheduled st)) = set (waiting st) \<union> set (scheduled st)"
    by (rule set_set_update)
  have sub: "set (waiting st) \<subseteq> set (waiting st) \<union> set (scheduled st)" by simp
  from assms(2) have run: "dispatch_loop tasks tree (set_update (waiting st) (scheduled st))
                             (waiting st) st = Inr st'"
    by (simp add: dispatch_def)
  from assms(1) B sub run show ?thesis by (rule dispatch_loop_gated)
qed

lemma scheduler_no_AssertionError:
  assumes anc: "ancestral tree"
  shows "scheduler L tasks tree hs ch evs \<noteq> Raised AssertionError st'"
proof
  assume run: "scheduler L tasks tree hs ch evs = Raised AssertionError st'"
  let ?st0 = "\<lparr>live = hs, waiting = [], scheduled = [], n_lines = 0, n_all_lines = 0,
                 task_queue = []\<rparr>"
  have "\<exists>n. scheduler_loop L tasks tree evs (?st0\<lparr>n_all_lines := n, waiting := remdups ch\<rparr>)
             = Raised AssertionError st'"
  proof (cases "sum_lines tree ch")
    case (Inl e)
    from sum_lines_error [OF this] obtain k where "e = KeyError k" ..
    with Inl run show ?thesis by (simp add: scheduler_def)
  next
    case (Inr n)
    with run show ?thesis by (auto simp: scheduler_def)
  qed
  then obtain n where
    loop: "scheduler_loop L tasks tree evs (?st0\<lparr>n_all_lines := n, waiting := remdups ch\<rparr>)
             = Raised AssertionError st'" ..
  have inv0: "gated tree (?st0\<lparr>n_all_lines := n, waiting := remdups ch\<rparr>)"
    by (simp add: gated_def)
  have "(\<exists>st0. gated tree st0 \<and> dispatch tasks tree st0 = Inl (AssertionError, st'))
       \<or> AssertionError = ZeroDivisionError \<or> AssertionError = KeyboardInterrupt
       \<or> (\<exists>st1 src r fs. gated tree st1 \<and> src \<in> set (scheduled st1)
             \<and> complete L tree src r fs st1 = Inl (AssertionError, st'))"
  proof (rule scheduler_loop_Raised [where Inv = "gated tree", OF inv0 _ _ loop])
    fix st st1 assume "gated tree st" "dispatch tasks tree st = Inr st1"
    then show "gated tree st1" by (rule dispatch_gated)
  next
    fix st src r fs st2
    assume "gated tree st" "complete L tree src r fs st = Inr st2"
    with complete_gated [OF anc] show "gated tree st2" by blast
  qed
  then consider st0 where "dispatch tasks tree st0 = Inl (AssertionError, st')"
    | st1 src r fs where "gated tree st1" "complete L tree src r fs st1 = Inl (AssertionError, st')"
    by blast
  then show False
  proof cases
    case 1
    from dispatch_error [OF this] show False by simp
  next
    case 2
    from complete_gated [OF anc 2(1), of L src r fs] 2(2) show False by blast
  qed
qed

section \<open>Priorities and ancestors\<close>

lemma prio_Some_key: "prio j tree n = Some p \<Longrightarrow> n \<in> fst ` set tree"
  by (cases j) (auto simp: prio.simps split: option.splits dest: map_of_Some_key)

text \<open>
  Claim C3, as amended.  In the tree the graph builder returns, every source has a
  priority of at least 1, and an ancestor of a source has a strictly greater priority
  than the source: for \<open>d\<close> in \<^verbatim>\<open>ancestors[s]\<close>, \<^verbatim>\<open>priority[s] < priority[d]\<close>.
\<close>

theorem priority_order:
  assumes "get_tree L fs tasks = Inr tree" and "distinct (map fst tasks)"
  shows "(\<forall>s\<in>fst ` set tasks. \<exists>p. map_of (priority tree) s = Some p \<and> 1 \<le> p)
       \<and> (\<forall>s a d. map_of (ancestors tree) s = Some a \<and> d \<in> set a \<longrightarrow>
            (\<exists>ps pd. map_of (priority tree) s = Some ps \<and> map_of (priority tree) d = Some pd
               \<and> ps < pd))"
proof (intro conjI ballI allI impI)
  let ?pt = "priority_tree (src_mods tree) (mod_uses tree)"
  note keys = get_tree_sound(1) [OF assms] and dom = get_tree_sound(5) [OF assms]
    and memo = get_tree_sound(6) [OF assms] and pe = get_tree_sound(7) [OF assms]
    and anc = get_tree_sound(9) [OF assms]
  have entry: "\<exists>p j. map_of (priority tree) s = Some p \<and> prio j ?pt s = Some p"
    if "s \<in> fst ` set tasks" for s
  proof -
    from that dom obtain p where "map_of (priority tree) s = Some p" by blast
    with memo show ?thesis unfolding prio_memo_def by blast
  qed
  have ptkeys: "fst ` set ?pt = fst ` set tasks"
    by (metis priority_tree_keys keys set_map)
  {
    fix s assume "s \<in> fst ` set tasks"
    from entry [OF this] obtain p j where p: "map_of (priority tree) s = Some p"
      and "prio j ?pt s = Some p" by blast
    from prio_ge_1 [OF this(2)] p show "\<exists>p. map_of (priority tree) s = Some p \<and> 1 \<le> p"
      by blast
  next
    fix s a d assume "map_of (ancestors tree) s = Some a \<and> d \<in> set a"
    with anc have "(d, s) \<in> (uses_edge tree)\<^sup>+" by blast
    then have path: "(d, s) \<in> (edges ?pt)\<^sup>+" by (simp add: pe)
    then obtain x where "(d, x) \<in> edges ?pt" by (meson tranclD)
    then have "d \<in> fst ` set ?pt"
      by (auto simp: edges_def dest: map_of_Some_key)
    with ptkeys entry obtain pd j where pd: "map_of (priority tree) d = Some pd"
      and jd: "prio j ?pt d = Some pd" by blast
    from prio_trancl [OF path jd] obtain ps j' where js: "prio j' ?pt s = Some ps" and lt: "ps < pd"
      by blast
    from prio_Some_key [OF js] ptkeys entry obtain ps' j'' where
      ps': "map_of (priority tree) s = Some ps'" and "prio j'' ?pt s = Some ps'" by blast
    from prio_unique [OF this(2) js] have "ps' = ps" .
    with ps' pd lt
    show "\<exists>ps pd. map_of (priority tree) s = Some ps \<and> map_of (priority tree) d = Some pd \<and> ps < pd"
      by blast
  }
qed

theorem priority_order_witness:
  "(\<exists>p. map_of (priority ab_tree) ''a'' = Some p \<and> 1 \<le> p)
   \<and> (\<exists>ps pd. map_of (priority ab_tree) ''b'' = Some ps \<and> map_of (priority ab_tree) ''a'' = Some pd
         \<and> ps < pd)"
proof -
  have tree: "get_tree plain_lib ab_fs ab_tasks = Inr ab_tree"
    by code_simp
  have dist: "distinct (map fst ab_tasks)"
    by code_simp
  have mem: "''a'' \<in> fst ` set ab_tasks"
    by code_simp
  have pre: "map_of (ancestors ab_tree) ''b'' = Some [''a''] \<and> ''a'' \<in> set [''a'']"
    by code_simp
  note T = priority_order [OF tree dist]
  note a = T [THEN conjunct1, THEN bspec, OF mem]
  note b = T [THEN conjunct2, THEN spec, THEN spec, THEN spec, THEN mp, OF pre]
  from a b show ?thesis
    by (intro conjI)
qed

text \<open>
  The claim as written has the order the other way round: \<^verbatim>\<open>a\<close> is the one ancestor of
  \<^verbatim>\<open>b\<close>, and the priority of \<^verbatim>\<open>b\<close> is 1, that of \<^verbatim>\<open>a\<close> is 2.
\<close>

theorem priority_order_counterexample:
  "get_tree plain_lib ab_fs ab_tasks = Inr ab_tree
   \<and> map_of (ancestors ab_tree) ''b'' = Some [''a'']
   \<and> map_of (priority ab_tree) ''b'' = Some 1
   \<and> map_of (priority ab_tree) ''a'' = Some 2
   \<and> \<not> (1 :: int) > 2"
  by code_simp

section \<open>\<^verbatim>\<open>build\<close>: the changed files\<close>

lemma load_hashes_error:
  "load_hashes c = Inl e \<Longrightarrow> (\<exists>k. e = KeyError k) \<or> e = TypeError"
  by (cases c)
    (auto simp: load_hashes_def read_cache_def subscript_def lookup_def
      split: json.splits option.splits)

lemma changed_error:
  "changed ts tree hs = Inl e \<Longrightarrow> (\<exists>k. e = KeyError k) \<or> e = AttributeError"
proof (induction ts arbitrary: e)
  case Nil
  then show ?case by simp
next
  case (Cons st ts)
  obtain src t where st: "st = (src, t)" by (cases st)
  from Cons show ?case
    by (auto simp: st lookup_def py_get_def split: sum.splits option.splits json.splits)
qed

lemma changed_char:
  assumes "fst ` set ts \<subseteq> dom (map_of (hashes tree))"
  shows "changed ts tree (JObj prior)
           = Inr [src \<leftarrow> map fst ts. map_option JStr (map_of (hashes tree) src) \<noteq> map_of prior src]"
  using assms
proof (induction ts)
  case Nil
  show ?case by simp
next
  case (Cons st ts)
  obtain src t where st: "st = (src, t)" by (cases st)
  from Cons.prems obtain h where h: "map_of (hashes tree) src = Some h"
    by (auto simp: st)
  from Cons.prems have "fst ` set ts \<subseteq> dom (map_of (hashes tree))" by simp
  from Cons.IH [OF this] h show ?case
    by (simp add: st lookup_def py_get_def)
qed

lemma build_early:
  assumes "get_tree L fs tasks = Inr tree" and "load_hashes cache = Inr hs"
    and "changed tasks tree hs = Inr ch" and "ch = [] \<or> dry"
  shows "build L fs cache tasks dry njobs evs
           = \<lparr>ending_of = Returned, changed_of = ch, workers_of = 0, queued_of = [],
              written_of = None\<rparr>"
  using assms by (auto simp: build_def)

lemma build_scheduler:
  assumes "get_tree L fs tasks = Inr tree" and "load_hashes cache = Inr (JObj kvs)"
    and "changed tasks tree (JObj kvs) = Inr ch" and "ch \<noteq> []" and "\<not> dry"
  shows "build L fs cache tasks dry njobs evs
           = (case scheduler L tasks tree kvs ch (if 0 < njobs then evs else filter is_interrupt evs) of
                Done st \<Rightarrow>
                  \<lparr>ending_of = Returned, changed_of = ch, workers_of = nat njobs,
                   queued_of = task_queue st, written_of = Some (live st)\<rparr>
              | Raised e st \<Rightarrow>
                  \<lparr>ending_of = Failed e, changed_of = ch, workers_of = nat njobs,
                   queued_of = task_queue st, written_of = Some (live st)\<rparr>
              | Pending st \<Rightarrow>
                  \<lparr>ending_of = Hung, changed_of = ch, workers_of = nat njobs,
                   queued_of = task_queue st, written_of = None\<rparr>)"
  using assms by (simp add: build_def)

lemma build_changed_of:
  assumes "get_tree L fs tasks = Inr tree" and "load_hashes cache = Inr (JObj kvs)"
    and "changed tasks tree (JObj kvs) = Inr ch"
  shows "changed_of (build L fs cache tasks dry njobs evs) = ch"
proof (cases "ch = [] \<or> dry")
  case True
  from build_early [OF assms True] show ?thesis by simp
next
  case False
  then have "ch \<noteq> []" "\<not> dry" by simp_all
  from build_scheduler [OF assms this] show ?thesis
    by (simp split: outcome.splits)
qed

text \<open>
  Claim C4.  With the graph built and the cache loaded as the map \<open>prior\<close>, the list of
  changed files that \<^verbatim>\<open>build\<close> computes holds the sources whose hash in the tree is
  not the value \<open>prior\<close> has for them, in the order of the tasks; the hash of a source in
  the tree is the digest of \<^verbatim>\<open>repr(args)\<close> followed by the bytes of its file.  So a source
  whose entry in \<open>prior\<close> is the digest of other arguments with the same bytes is in the
  list, as long as \<^verbatim>\<open>repr\<close> tells the two tuples apart and the digest the two messages.
  With an empty list, or with \<^verbatim>\<open>dry\<close> set, \<^verbatim>\<open>build\<close> returns having created no worker, queued
  nothing and written nothing.
\<close>

theorem changed_files_at_start:
  assumes tree: "get_tree L fs tasks = Inr tree" and dist: "distinct (map fst tasks)"
    and load: "load_hashes cache = Inr (JObj prior)"
  shows "changed_of (build L fs cache tasks dry njobs evs)
           = [src \<leftarrow> map fst tasks. map_option JStr (map_of (hashes tree) src) \<noteq> map_of prior src]
       \<and> (\<forall>src t. (src, t) \<in> set tasks \<longrightarrow>
            (\<exists>bytes. fs (source t) = Some bytes
               \<and> map_of (hashes tree) src = Some (sha1 L (repr_args L (args t) @ bytes))))
       \<and> (\<forall>src t bytes old.
            (src, t) \<in> set tasks \<and> fs (source t) = Some bytes
            \<and> map_of prior src = Some (JStr (sha1 L (repr_args L old @ bytes)))
            \<and> old \<noteq> args t \<and> inj_on (repr_args L) {old, args t}
            \<and> inj_on (sha1 L) {repr_args L old @ bytes, repr_args L (args t) @ bytes}
          \<longrightarrow> src \<in> set (changed_of (build L fs cache tasks dry njobs evs)))
       \<and> (changed_of (build L fs cache tasks dry njobs evs) = [] \<or> dry \<longrightarrow>
            build L fs cache tasks dry njobs evs
              = \<lparr>ending_of = Returned,
                 changed_of = changed_of (build L fs cache tasks dry njobs evs),
                 workers_of = 0, queued_of = [], written_of = None\<rparr>)"
proof -
  let ?ch = "[src \<leftarrow> map fst tasks. map_option JStr (map_of (hashes tree) src) \<noteq> map_of prior src]"
  note hash = get_tree_sound(4) [OF tree dist]
  have "fst ` set tasks \<subseteq> dom (map_of (hashes tree))"
    using hash by force
  from changed_char [OF this] have ch: "changed tasks tree (JObj prior) = Inr ?ch" .
  note co = build_changed_of [OF tree load ch, of dry njobs evs]
  have 3: "src \<in> set (changed_of (build L fs cache tasks dry njobs evs))"
    if "(src, t) \<in> set tasks" "fs (source t) = Some bytes"
      "map_of prior src = Some (JStr (sha1 L (repr_args L old @ bytes)))"
      "old \<noteq> args t" "inj_on (repr_args L) {old, args t}"
      "inj_on (sha1 L) {repr_args L old @ bytes, repr_args L (args t) @ bytes}"
    for src t bytes old
  proof -
    from hash that(1,2) have h: "map_of (hashes tree) src = Some (sha1 L (repr_args L (args t) @ bytes))"
      by fastforce
    from that(4,5) have "repr_args L old \<noteq> repr_args L (args t)"
      by (auto simp: inj_on_def)
    then have "repr_args L old @ bytes \<noteq> repr_args L (args t) @ bytes"
      by simp
    with that(6) have "sha1 L (repr_args L old @ bytes) \<noteq> sha1 L (repr_args L (args t) @ bytes)"
      by (auto simp: inj_on_def)
    with h that(3) have "map_option JStr (map_of (hashes tree) src) \<noteq> map_of prior src"
      by auto
    moreover from that(1) have "src \<in> set (map fst tasks)"
      by force
    ultimately show ?thesis
      unfolding co by simp
  qed
  have 4: "build L fs cache tasks dry njobs evs
              = \<lparr>ending_of = Returned,
                 changed_of = changed_of (build L fs cache tasks dry njobs evs),
                 workers_of = 0, queued_of = [], written_of = None\<rparr>"
    if "changed_of (build L fs cache tasks dry njobs evs) = [] \<or> dry"
  proof -
    from that have "?ch = [] \<or> dry" unfolding co .
    from build_early [OF tree load ch this] show ?thesis
      by simp
  qed
  from co hash 3 4 show ?thesis
    by blast
qed

theorem changed_files_at_start_witness:
  "''a'' \<in> set (changed_of (build plain_lib ab_fs (Doc (JObj [(''hashes'', JObj ab_prior)]))
                               ab_tasks True 1 []))
   \<and> build plain_lib ab_fs (Doc (JObj [(''hashes'', JObj ab_prior)])) ab_tasks True 1 []
       = \<lparr>ending_of = Returned,
          changed_of = changed_of (build plain_lib ab_fs (Doc (JObj [(''hashes'', JObj ab_prior)]))
                                     ab_tasks True 1 []),
          workers_of = 0, queued_of = [], written_of = None\<rparr>"
proof -
  let ?t = "\<lparr>source = ''a.f90'', args = [''gfortran'', ''-c''], incdirs = []\<rparr>"
  let ?bytes = "''module m'' @ [CHR 0x0A] @ ''end module m'' @ [CHR 0x0A]"
  have tree: "get_tree plain_lib ab_fs ab_tasks = Inr ab_tree"
    by code_simp
  have dist: "distinct (map fst ab_tasks)"
    by code_simp
  have load: "load_hashes (Doc (JObj [(''hashes'', JObj ab_prior)])) = Inr (JObj ab_prior)"
    by code_simp
  have 1: "(''a'', ?t) \<in> set ab_tasks"
    by code_simp
  have 2: "ab_fs (source ?t) = Some ?bytes"
    by code_simp
  have 3: "map_of ab_prior ''a''
             = Some (JStr (sha1 plain_lib (repr_args plain_lib [''gfortran''] @ ?bytes)))"
    by code_simp
  have 4: "[''gfortran''] \<noteq> args ?t"
    by simp
  have 5: "inj_on (repr_args plain_lib) {[''gfortran''], args ?t}"
    by (simp add: plain_lib_def)
  have 6: "inj_on (sha1 plain_lib)
             {repr_args plain_lib [''gfortran''] @ ?bytes, repr_args plain_lib (args ?t) @ ?bytes}"
    by (simp add: plain_lib_def)
  note pre = conjI [OF 1 conjI [OF 2 conjI [OF 3 conjI [OF 4 conjI [OF 5 6]]]]]
  note T = changed_files_at_start [OF tree dist load, of True 1 "[]"]
  note a = T [THEN conjunct2, THEN conjunct2, THEN conjunct1, rule_format,
      where src = "''a''" and t = ?t and bytes = ?bytes and old = "[''gfortran'']", OF pre]
  note b = T [THEN conjunct2, THEN conjunct2, THEN conjunct2, THEN mp, OF disjI2, OF TrueI]
  from a b show ?thesis
    by (intro conjI)
qed

section \<open>\<^verbatim>\<open>build\<close>: writing the cache\<close>

text \<open>
  Claim C8, as amended.  When \<^verbatim>\<open>build\<close> reaches the scheduler (the graph is built, the
  cache loads, some file has changed and \<^verbatim>\<open>dry\<close> is not set) and the scheduler comes
  to an end, by returning or by raising, the cache written holds the live map as it
  is at that moment; while the scheduler waits for a result that never comes nothing
  is written.  When \<^verbatim>\<open>build\<close> ends with the compilation error of a source, and no
  task is named as the \<^verbatim>\<open>.mod\<close> file of a module some source defines, the cache
  written has no entry for that source.  A dry run, and a run that computes no changed
  file or fails before it has, write no cache.
\<close>

theorem build_cache_written:
  "(get_tree L fs tasks = Inr tree \<and> load_hashes cache = Inr (JObj kvs)
      \<and> changed tasks tree (JObj kvs) = Inr ch \<and> ch \<noteq> [] \<and> \<not> dry \<longrightarrow>
      written_of (build L fs cache tasks dry njobs evs)
        = (case scheduler L tasks tree kvs ch (if 0 < njobs then evs else filter is_interrupt evs) of
             Done st \<Rightarrow> Some (live st)
           | Raised e st \<Rightarrow> Some (live st)
           | Pending st \<Rightarrow> None))
   \<and> (get_tree L fs tasks = Inr tree \<and> set (artifacts tree) \<inter> fst ` set tasks = {}
        \<and> ending_of (build L fs cache tasks dry njobs evs) = Failed (CompilationError s rc) \<longrightarrow>
      (\<exists>w. written_of (build L fs cache tasks dry njobs evs) = Some w \<and> map_of w s = None))
   \<and> (dry \<or> changed_of (build L fs cache tasks dry njobs evs) = [] \<longrightarrow>
      written_of (build L fs cache tasks dry njobs evs) = None)"
proof (intro conjI impI)
  assume "get_tree L fs tasks = Inr tree \<and> load_hashes cache = Inr (JObj kvs)
      \<and> changed tasks tree (JObj kvs) = Inr ch \<and> ch \<noteq> [] \<and> \<not> dry"
  then have "get_tree L fs tasks = Inr tree" "load_hashes cache = Inr (JObj kvs)"
    "changed tasks tree (JObj kvs) = Inr ch" "ch \<noteq> []" "\<not> dry"
    by simp_all
  from build_scheduler [OF this]
  show "written_of (build L fs cache tasks dry njobs evs)
        = (case scheduler L tasks tree kvs ch (if 0 < njobs then evs else filter is_interrupt evs) of
             Done st \<Rightarrow> Some (live st)
           | Raised e st \<Rightarrow> Some (live st)
           | Pending st \<Rightarrow> None)"
    by (simp split: outcome.splits)
next
  assume a: "get_tree L fs tasks = Inr tree \<and> set (artifacts tree) \<inter> fst ` set tasks = {}
        \<and> ending_of (build L fs cache tasks dry njobs evs) = Failed (CompilationError s rc)"
  then have tree: "get_tree L fs tasks = Inr tree"
    and clash: "set (artifacts tree) \<inter> fst ` set tasks = {}"
    and ending: "ending_of (build L fs cache tasks dry njobs evs) = Failed (CompilationError s rc)"
    by simp_all
  show "\<exists>w. written_of (build L fs cache tasks dry njobs evs) = Some w \<and> map_of w s = None"
  proof (cases "load_hashes cache")
    case (Inl e)
    with tree ending have "e = CompilationError s rc" by (simp add: build_def)
    with load_hashes_error [OF Inl] show ?thesis by simp
  next
    case (Inr hs)
    show ?thesis
    proof (cases "changed tasks tree hs")
      case (Inl e)
      with tree Inr ending have "e = CompilationError s rc" by (simp add: build_def)
      with changed_error [OF Inl] show ?thesis by simp
    next
      case ch: (Inr ch)
      show ?thesis
      proof (cases "ch = [] \<or> dry")
        case True
        from build_early [OF tree Inr ch True] ending show ?thesis by simp
      next
        case False
        then have ne: "ch \<noteq> []" "\<not> dry" by simp_all
        show ?thesis
        proof (cases "\<exists>kvs. hs = JObj kvs")
          case False
          with tree Inr ch ne ending show ?thesis
            by (cases hs) (simp_all add: build_def)
        next
          case True
          then obtain kvs where hs: "hs = JObj kvs" ..
          note b = build_scheduler [OF tree Inr [unfolded hs] ch [unfolded hs] ne, of njobs evs]
          show ?thesis
          proof (cases "scheduler L tasks tree kvs ch (if 0 < njobs then evs else filter is_interrupt evs)")
            case (Done st)
            with b ending show ?thesis by simp
          next
            case (Pending st)
            with b ending show ?thesis by simp
          next
            case (Raised e st)
            with b ending have e: "e = CompilationError s rc" by simp
            from scheduler_CompilationError [OF clash Raised [unfolded e]]
            have "map_of (live st) s = None" .
            with b Raised show ?thesis by simp
          qed
        qed
      qed
    qed
  qed
next
  assume a: "dry \<or> changed_of (build L fs cache tasks dry njobs evs) = []"
  show "written_of (build L fs cache tasks dry njobs evs) = None"
  proof (cases "get_tree L fs tasks")
    case (Inl e)
    then show ?thesis by (simp add: build_def)
  next
    case tree: (Inr tree)
    show ?thesis
    proof (cases "load_hashes cache")
      case (Inl e)
      with tree show ?thesis by (simp add: build_def)
    next
      case (Inr hs)
      show ?thesis
      proof (cases "changed tasks tree hs")
        case (Inl e)
        with tree Inr show ?thesis by (simp add: build_def)
      next
        case ch: (Inr ch)
        show ?thesis
        proof (cases "ch = [] \<or> dry")
          case True
          from build_early [OF tree Inr ch True] show ?thesis by simp
        next
          case False
          then have ne: "ch \<noteq> []" "\<not> dry" by simp_all
          show ?thesis
          proof (cases "\<exists>kvs. hs = JObj kvs")
            case False
            with tree Inr ch ne show ?thesis
              by (cases hs) (simp_all add: build_def)
          next
            case True
            then obtain kvs where hs: "hs = JObj kvs" ..
            from build_changed_of [OF tree Inr [unfolded hs] ch [unfolded hs], of dry njobs evs] a ne
            show ?thesis by simp
          qed
        qed
      qed
    qed
  qed
qed

theorem build_cache_written_witness:
  "(\<exists>w. written_of (build plain_lib ab_fs (Doc (JObj [(''hashes'', JObj ab_prior)])) ab_tasks
                      False 1 ab_failure) = Some w
        \<and> map_of w ''a'' = None)
   \<and> written_of (build plain_lib ab_fs Missing ab_tasks True 1 ab_events) = None"
proof -
  have tree: "get_tree plain_lib ab_fs ab_tasks = Inr ab_tree"
    by code_simp
  have clash: "set (artifacts ab_tree) \<inter> fst ` set ab_tasks = {}"
    by code_simp
  have ending: "ending_of (build plain_lib ab_fs (Doc (JObj [(''hashes'', JObj ab_prior)])) ab_tasks
                             False 1 ab_failure) = Failed (CompilationError ''a'' 1)"
    by code_simp
  note a = build_cache_written [THEN conjunct2, THEN conjunct1, THEN mp,
      OF conjI [OF tree conjI [OF clash ending]]]
  note b = build_cache_written [THEN conjunct2, THEN conjunct2, THEN mp, OF disjI1, OF TrueI,
      of plain_lib ab_fs Missing ab_tasks 1 ab_events]
  from a b show ?thesis
    by (intro conjI)
qed

text \<open>
  The claim as written fails on a dry run, which writes nothing; and where a task is
  named as the \<^verbatim>\<open>.mod\<close> file of a module, the cache written after that task's
  compilation error holds an entry under its name, the hash of the \<^verbatim>\<open>.mod\<close> file.
\<close>

theorem build_cache_written_counterexample:
  "build plain_lib ab_fs Missing ab_tasks True 1 ab_events
     = \<lparr>ending_of = Returned, changed_of = [''a'', ''b''], workers_of = 0, queued_of = [],
        written_of = None\<rparr>
   \<and> ending_of (build plain_lib clash_fs Missing clash_tasks False 1 clash_events)
       = Failed (CompilationError ''b.mod'' 1)
   \<and> written_of (build plain_lib clash_fs Missing clash_tasks False 1 clash_events)
       = Some [(''a'', JStr (''gfortran,-c,module b'' @ [CHR 0x0A])), (''b.mod'', JStr ''i1'')]"
  by code_simp

section \<open>The assertion of the scheduler\<close>

text \<open>
  Claim C9.  With the tree the graph builder returns, the scheduler never fails on
  its assertion, whatever map of hashes and list of changed files it starts from and
  whatever results arrive; and \<^verbatim>\<open>build\<close> never ends with an assertion error.
\<close>

theorem assertion_never_fails:
  assumes "get_tree L fs tasks = Inr tree" and "distinct (map fst tasks)"
  shows "(\<forall>hs ch evs st. scheduler L tasks tree hs ch evs \<noteq> Raised AssertionError st)
       \<and> ending_of (build L fs cache tasks dry njobs evs) \<noteq> Failed AssertionError"
proof
  note anc = get_tree_ancestral [OF assms]
  show sched: "\<forall>hs ch evs st. scheduler L tasks tree hs ch evs \<noteq> Raised AssertionError st"
    using scheduler_no_AssertionError [OF anc] by blast
  note tree = assms(1)
  show "ending_of (build L fs cache tasks dry njobs evs) \<noteq> Failed AssertionError"
  proof
    assume ending: "ending_of (build L fs cache tasks dry njobs evs) = Failed AssertionError"
    show False
    proof (cases "load_hashes cache")
      case (Inl e)
      with tree ending have "e = AssertionError" by (simp add: build_def)
      with load_hashes_error [OF Inl] show ?thesis by simp
    next
      case (Inr hs)
      show ?thesis
      proof (cases "changed tasks tree hs")
        case (Inl e)
        with tree Inr ending have "e = AssertionError" by (simp add: build_def)
        with changed_error [OF Inl] show ?thesis by simp
      next
        case ch: (Inr ch)
        show ?thesis
        proof (cases "ch = [] \<or> dry")
          case True
          from build_early [OF tree Inr ch True] ending show ?thesis by simp
        next
          case False
          then have ne: "ch \<noteq> []" "\<not> dry" by simp_all
          show ?thesis
          proof (cases "\<exists>kvs. hs = JObj kvs")
            case False
            with tree Inr ch ne ending show ?thesis
              by (cases hs) (simp_all add: build_def)
          next
            case True
            then obtain kvs where hs: "hs = JObj kvs" ..
            note b = build_scheduler [OF tree Inr [unfolded hs] ch [unfolded hs] ne, of njobs evs]
            show ?thesis
            proof (cases "scheduler L tasks tree kvs ch (if 0 < njobs then evs else filter is_interrupt evs)")
              case (Done st)
              with b ending show ?thesis by simp
            next
              case (Pending st)
              with b ending show ?thesis by simp
            next
              case (Raised e st)
              with b ending have "e = AssertionError" by simp
              with Raised sched show ?thesis by blast
            qed
          qed
        qed
      qed
    qed
  qed
qed

theorem assertion_never_fails_witness:
  "scheduler plain_lib ab_tasks ab_tree ab_prior [''a'', ''b''] ab_events \<noteq> Raised AssertionError ab_start
   \<and> ending_of (build plain_lib ab_fs Missing ab_tasks False 1 ab_events) \<noteq> Failed AssertionError"
proof -
  have tree: "get_tree plain_lib ab_fs ab_tasks = Inr ab_tree"
    by code_simp
  have dist: "distinct (map fst ab_tasks)"
    by code_simp
  note T = assertion_never_fails [OF tree dist, of Missing False 1 ab_events]
  note a = T [THEN conjunct1, THEN spec, THEN spec, THEN spec, THEN spec,
      of ab_prior "[''a'', ''b'']" ab_events ab_start]
  note b = T [THEN conjunct2]
  from a b show ?thesis
    by (intro conjI)
qed

end
